theory Spec2Isabelle
  imports Main "HOL-Library.Word"
begin

unbundle bit_operations_syntax

section \<open>JavaScript values used by the chat application\<close>

text \<open>
  A JavaScript string is a sequence of UTF-16 code units. \<open>String.fromCharCode\<close> keeps the
  low 16 bits of its argument, which is what \<open>word_of_int\<close> does on a 16-bit word, and
  \<open>charCodeAt\<close> reads a unit back as a number, or \<open>NaN\<close> (here \<open>None\<close>) past the end.
\<close>

type_synonym code_unit = "16 word"
type_synonym jsstring = "code_unit list"

datatype js_error = Error string | RangeError string | TypeError string

definition fromCharCode :: "int \<Rightarrow> code_unit" where
  "fromCharCode n = word_of_int n"

definition charCodeAt :: "jsstring \<Rightarrow> nat \<Rightarrow> int option" where
  "charCodeAt s i = (if i < length s then Some (uint (s ! i)) else None)"

text \<open>
  \<open>(x >> b) & 1\<close> on a number: the operand is first converted to a 32-bit integer, and
  \<open>NaN\<close> converts to 0. Every number that reaches it is a code unit (below \<open>2 ^ 16\<close>), so
  the conversion changes nothing else.
\<close>

definition shr_and1 :: "int option \<Rightarrow> nat \<Rightarrow> int" where
  "shr_and1 x b = (case x of None \<Rightarrow> 0 | Some c \<Rightarrow> drop_bit b c AND 1)"

text \<open>The remainder operator \<open>%\<close> of JavaScript: the sign follows the dividend.\<close>

definition js_rem :: "int \<Rightarrow> int \<Rightarrow> int" where
  "js_rem a b = sgn a * (\<bar>a\<bar> mod \<bar>b\<bar>)"

text \<open>
  The string iterator behind \<open>for (let ch of msg)\<close> steps by code point: a high surrogate
  followed by a low surrogate is one element of two units, every other unit is an element
  of its own.
\<close>

definition is_high_surrogate :: "code_unit \<Rightarrow> bool" where
  "is_high_surrogate c = (0xD800 \<le> c \<and> c \<le> 0xDBFF)"

definition is_low_surrogate :: "code_unit \<Rightarrow> bool" where
  "is_low_surrogate c = (0xDC00 \<le> c \<and> c \<le> 0xDFFF)"

fun string_iterator :: "jsstring \<Rightarrow> jsstring list" where
  "string_iterator [] = []"
| "string_iterator [c] = [[c]]"
| "string_iterator (c # d # rest) =
     (if is_high_surrogate c \<and> is_low_surrogate d
      then [c, d] # string_iterator rest
      else [c] # string_iterator (d # rest))"

section \<open>The Hamming(7,4) codec (utils/hamming.js)\<close>

text \<open>Bits are JavaScript numbers held in arrays; the arrays are lists of integers.\<close>

definition encodeNibble :: "int list \<Rightarrow> js_error + int list" where
  "encodeNibble nibble =
     (if length nibble \<noteq> 4 then Inl (Error ''Invalid nibble size'')
      else
        let d3 = nibble ! 0; d5 = nibble ! 1; d6 = nibble ! 2; d7 = nibble ! 3;
            p1 = js_rem (d3 + d5 + d7) 2;
            p2 = js_rem (d3 + d6 + d7) 2;
            p4 = js_rem (d5 + d6 + d7) 2
        in Inr [p1, p2, d3, p4, d5, d6, d7])"

definition decodeNibble :: "int list \<Rightarrow> js_error + int list" where
  "decodeNibble receivedWord =
     (if length receivedWord \<noteq> 7 then Inl (Error ''Invalid word size received.'')
      else
        let p1 = receivedWord ! 0; p2 = receivedWord ! 1; d3 = receivedWord ! 2;
            p4 = receivedWord ! 3; d5 = receivedWord ! 4; d6 = receivedWord ! 5;
            d7 = receivedWord ! 6;
            s1 = js_rem (p1 + d3 + d5 + d7) 2;
            s2 = js_rem (p2 + d3 + d6 + d7) 2;
            s4 = js_rem (p4 + d5 + d6 + d7) 2;
            syndrome = push_bit 2 s4 OR push_bit 1 s2 OR s1;
            corrected =
              (if syndrome \<noteq> 0 \<and> 1 \<le> syndrome \<and> syndrome \<le> 7
               then receivedWord[nat (syndrome - 1) := 1 - receivedWord ! nat (syndrome - 1)]
               else receivedWord)
        in Inr [corrected ! 2, corrected ! 4, corrected ! 5, corrected ! 6])"

text \<open>
  \<open>bits.reduce((acc, bit, idx) => acc | (bit << (6 - idx)), 0)\<close>: the accumulator
  and the running index are threaded through the array. The arrays it is called on have
  seven elements, so \<open>6 - idx\<close> is never negative.
\<close>

fun reduce_pack :: "int \<Rightarrow> nat \<Rightarrow> int list \<Rightarrow> int" where
  "reduce_pack acc idx [] = acc"
| "reduce_pack acc idx (b # bits) = reduce_pack (acc OR push_bit (6 - idx) b) (Suc idx) bits"

definition highNibble :: "int option \<Rightarrow> int list" where
  "highNibble code = [shr_and1 code 7, shr_and1 code 6, shr_and1 code 5, shr_and1 code 4]"

definition lowNibble :: "int option \<Rightarrow> int list" where
  "lowNibble code = [shr_and1 code 3, shr_and1 code 2, shr_and1 code 1, shr_and1 code 0]"

text \<open>The body of the loop of \<open>encodeMessage\<close>, for one element \<open>ch\<close> of the iteration.\<close>

definition encodeChar :: "jsstring \<Rightarrow> js_error + jsstring" where
  "encodeChar ch =
     (let code = charCodeAt ch 0
      in case encodeNibble (highNibble code) of
           Inl e \<Rightarrow> Inl e
         | Inr encodedHigh \<Rightarrow>
             (case encodeNibble (lowNibble code) of
                Inl e \<Rightarrow> Inl e
              | Inr encodedLow \<Rightarrow>
                  let highChar = reduce_pack 0 0 encodedHigh;
                      lowChar = reduce_pack 0 0 encodedLow
                  in Inr [fromCharCode highChar, fromCharCode lowChar]))"

fun encodeMessage_loop :: "jsstring list \<Rightarrow> jsstring \<Rightarrow> js_error + jsstring" where
  "encodeMessage_loop [] encodedString = Inr encodedString"
| "encodeMessage_loop (ch # chs) encodedString =
     (case encodeChar ch of
        Inl e \<Rightarrow> Inl e
      | Inr two \<Rightarrow> encodeMessage_loop chs (encodedString @ two))"

definition encodeMessage :: "jsstring \<Rightarrow> js_error + jsstring" where
  "encodeMessage msg = encodeMessage_loop (string_iterator msg) []"

definition nibble_value :: "int list \<Rightarrow> int" where
  "nibble_value d = push_bit 3 (d ! 0) OR push_bit 2 (d ! 1) OR push_bit 1 (d ! 2) OR d ! 3"

text \<open>The body of the loop of \<open>decodeMessage\<close>, for the two numbers read at \<open>i\<close> and \<open>i + 1\<close>.\<close>

definition decodePair :: "int option \<Rightarrow> int option \<Rightarrow> js_error + code_unit" where
  "decodePair highCode lowCode =
     (let highBits = map (shr_and1 highCode) [6, 5, 4, 3, 2, 1, 0];
          lowBits = map (shr_and1 lowCode) [6, 5, 4, 3, 2, 1, 0]
      in case decodeNibble highBits of
           Inl e \<Rightarrow> Inl e
         | Inr decodedHigh \<Rightarrow>
             (case decodeNibble lowBits of
                Inl e \<Rightarrow> Inl e
              | Inr decodedLow \<Rightarrow>
                  let charCodeHigh = nibble_value decodedHigh;
                      charCodeLow = nibble_value decodedLow
                  in Inr (fromCharCode (push_bit 4 charCodeHigh OR charCodeLow))))"

function decodeMessage_loop :: "jsstring \<Rightarrow> nat \<Rightarrow> jsstring \<Rightarrow> js_error + jsstring" where
  "decodeMessage_loop msg i decodedString =
     (if i < length msg
      then (case decodePair (charCodeAt msg i) (charCodeAt msg (i + 1)) of
              Inl e \<Rightarrow> Inl e
            | Inr c \<Rightarrow> decodeMessage_loop msg (i + 2) (decodedString @ [c]))
      else Inr decodedString)"
  by pat_completeness auto
termination
  by (relation "measure (\<lambda>(msg, i, decodedString). length msg - i)") auto

declare decodeMessage_loop.simps [simp del]

definition decodeMessage :: "jsstring \<Rightarrow> js_error + jsstring" where
  "decodeMessage msg = decodeMessage_loop msg 0 []"

text \<open>Flipping the bit at a 1-indexed position of a word, as a transmission error does.\<close>

definition flip_bit_at :: "nat \<Rightarrow> int list \<Rightarrow> int list" where
  "flip_bit_at i w = w[i - 1 := 1 - w ! (i - 1)]"

text \<open>
  Executable checks over one nibble, run over all sixteen nibbles below: the codeword of
  \<open>N\<close> decodes to \<open>N\<close>, also with any one of its seven bits flipped; and the character
  that \<open>encodeMessage\<close> packs a codeword into is at most 127 and unpacks, in
  \<open>decodeMessage\<close>, to the same codeword.
\<close>

definition corrects_all_flips :: "int list \<Rightarrow> bool" where
  "corrects_all_flips N =
     (case encodeNibble N of
        Inl e \<Rightarrow> False
      | Inr w \<Rightarrow> decodeNibble w = Inr N \<and>
          list_all (\<lambda>i. decodeNibble (flip_bit_at i w) = Inr N) [1, 2, 3, 4, 5, 6, 7])"

definition packs_back :: "int list \<Rightarrow> bool" where
  "packs_back N =
     (case encodeNibble N of
        Inl e \<Rightarrow> False
      | Inr w \<Rightarrow>
          (let u = fromCharCode (reduce_pack 0 0 w)
           in u \<le> 127 \<and> map (shr_and1 (Some (uint u))) [6, 5, 4, 3, 2, 1, 0] = w \<and> decodeNibble w = Inr N))"

text \<open>The two characters that one iteration of \<open>encodeMessage\<close> appends.\<close>

definition two_units :: "jsstring \<Rightarrow> jsstring" where
  "two_units ch = (case encodeChar ch of Inl e \<Rightarrow> [] | Inr two \<Rightarrow> two)"

section \<open>Number-theory primitives (utils/math.js)\<close>

text \<open>
  Arbitrary-precision integers (\<open>BigInt\<close>) are \<open>int\<close>. Division \<open>/\<close> truncates towards zero
  and the remainder \<open>%\<close> takes the sign of the dividend (\<open>js_rem\<close> above).
\<close>

definition js_quot :: "int \<Rightarrow> int \<Rightarrow> int" where
  "js_quot a b = sgn a * sgn b * (\<bar>a\<bar> div \<bar>b\<bar>)"

function isPrime_loop :: "int \<Rightarrow> int \<Rightarrow> bool" where
  "isPrime_loop num i =
     (if i * i \<le> num
      then (if js_rem num i = 0 \<or> js_rem num (i + 2) = 0 then False
            else isPrime_loop num (i + 6))
      else True)"
  by pat_completeness auto
termination
proof (relation "measure (\<lambda>(num, i). nat (num + 6 - i))")
  show "wf (measure (\<lambda>(num, i). nat (num + 6 - i)))" by simp
next
  fix num i :: int
  assume le: "i * i \<le> num"
  have "i \<le> i * i"
  proof (cases "1 \<le> i")
    case True
    then have "i * 1 \<le> i * i" by (intro mult_left_mono) simp_all
    then show ?thesis by simp
  next
    case False
    then have "i \<le> 0" by simp
    also have "0 \<le> i * i" by simp
    finally show ?thesis .
  qed
  with le have "i \<le> num" by simp
  then show "((num, i + 6), (num, i)) \<in> measure (\<lambda>(num, i). nat (num + 6 - i))" by simp
qed

declare isPrime_loop.simps [simp del]

definition isPrime :: "int \<Rightarrow> bool" where
  "isPrime num =
     (if num \<le> 1 then False
      else if num \<le> 3 then True
      else if js_rem num 2 = 0 \<or> js_rem num 3 = 0 then False
      else isPrime_loop num 5)"

text \<open>
  The statement the primality test is measured against: a prime is an integer above 1
  whose only positive divisors are 1 and itself.
\<close>

definition prime_number :: "int \<Rightarrow> bool" where
  "prime_number p = (1 < p \<and> (\<forall>d. 0 < d \<and> d dvd p \<longrightarrow> d = 1 \<or> d = p))"

text \<open>The invariant of the trial-division loop: no divisor from 2 up to, excluding, \<open>i\<close>.\<close>

definition no_divisor_below :: "int \<Rightarrow> int \<Rightarrow> bool" where
  "no_divisor_below num i = (\<forall>d. 2 \<le> d \<and> d < i \<longrightarrow> \<not> d dvd num)"

lemma abs_js_rem: "\<bar>js_rem a b\<bar> = \<bar>a\<bar> mod \<bar>b\<bar>"
proof -
  have "0 \<le> \<bar>a\<bar> mod \<bar>b\<bar>" by (cases "b = 0") simp_all
  then show ?thesis by (cases "a = 0") (simp_all add: js_rem_def abs_mult)
qed

function gcd_bigint :: "int \<Rightarrow> int \<Rightarrow> int" where
  "gcd_bigint a b = (if b = 0 then a else gcd_bigint b (js_rem a b))"
  by pat_completeness auto
termination
proof (relation "measure (\<lambda>(a, b). nat \<bar>b\<bar>)")
  show "wf (measure (\<lambda>(a, b). nat \<bar>b\<bar>))" by simp
next
  fix a b :: int
  assume "b \<noteq> 0"
  then have "\<bar>a\<bar> mod \<bar>b\<bar> < \<bar>b\<bar>" by simp
  moreover have "\<bar>js_rem a b\<bar> = \<bar>a\<bar> mod \<bar>b\<bar>"
    by (rule abs_js_rem)
  ultimately show "((b, js_rem a b), (a, b)) \<in> measure (\<lambda>(a, b). nat \<bar>b\<bar>)" by simp
qed

declare gcd_bigint.simps [simp del]

text \<open>
  \<open>generatePrime\<close> draws from \<open>crypto.randomInt\<close>. The values the generator returns are an
  input of the model, \<open>draws\<close>, consumed from the front; a function that draws returns
  the draws left with its result. \<open>randomInt(lo, hi)\<close> returns an integer from \<open>lo\<close> up to,
  excluding, \<open>hi\<close>, and raises when that range is empty. The result \<open>None\<close> says that
  \<open>draws\<close> is not the record of a complete run: it ran out, or holds a value that
  \<open>randomInt\<close> cannot return at that point.
\<close>

type_synonym 'a drawing = "(js_error + 'a \<times> int list) option"

definition randomInt :: "int \<Rightarrow> int \<Rightarrow> int list \<Rightarrow> int drawing" where
  "randomInt lo hi draws =
     (if hi \<le> lo then Some (Inl (RangeError ''ERR_OUT_OF_RANGE''))
      else case draws of
             [] \<Rightarrow> None
           | x # rest \<Rightarrow> if lo \<le> x \<and> x < hi then Some (Inr (x, rest)) else None)"

function generatePrime_loop :: "int \<Rightarrow> int \<Rightarrow> int \<Rightarrow> int list \<Rightarrow> int drawing" where
  "generatePrime_loop range' maxTries i draws =
     (if i \<le> maxTries
      then (case randomInt 1 (range' + 1) draws of
              None \<Rightarrow> None
            | Some (Inl err) \<Rightarrow> Some (Inl err)
            | Some (Inr (num, draws')) \<Rightarrow>
                if isPrime num then Some (Inr (num, draws'))
                else generatePrime_loop range' maxTries (i + 1) draws')
      else Some (Inl (Error ''No prime number found'')))"
  by pat_completeness auto
termination
  by (relation "measure (\<lambda>(range', maxTries, i, draws). nat (maxTries + 1 - i))") auto

declare generatePrime_loop.simps [simp del]

definition generatePrime :: "int \<Rightarrow> int \<Rightarrow> int list \<Rightarrow> int drawing" where
  "generatePrime range' maxTries draws = generatePrime_loop range' maxTries 1 draws"

text \<open>A prime that \<open>generatePrime\<close> returns passed \<open>isPrime\<close>, and at least one draw was used.\<close>

lemma randomInt_consumes:
  "randomInt lo hi draws = Some (Inr (x, rest)) \<Longrightarrow> length rest < length draws"
  by (auto simp: randomInt_def split: if_splits list.splits)

lemma generatePrime_loop_Inr:
  "generatePrime_loop range' maxTries i draws = Some (Inr (num, rest)) \<Longrightarrow>
     length rest < length draws \<and> isPrime num"
proof (induction range' maxTries i draws rule: generatePrime_loop.induct)
  case (1 range' maxTries i draws)
  from "1.prems" have le: "i \<le> maxTries"
    by (subst (asm) generatePrime_loop.simps) (simp split: if_splits)
  with "1.prems" obtain x draws' where
    r: "randomInt 1 (range' + 1) draws = Some (Inr (x, draws'))"
    by (subst (asm) generatePrime_loop.simps) (auto split: option.splits sum.splits)
  from r have shorter: "length draws' < length draws" by (rule randomInt_consumes)
  show ?case
  proof (cases "isPrime x")
    case True
    with "1.prems" le r have "num = x" "rest = draws'"
      by (subst (asm) generatePrime_loop.simps, simp)+
    with True shorter show ?thesis by simp
  next
    case False
    with "1.prems" le r
    have "generatePrime_loop range' maxTries (i + 1) draws' = Some (Inr (num, rest))"
      by (subst (asm) generatePrime_loop.simps) simp
    from "1.IH" [OF le r refl refl False this] shorter show ?thesis by simp
  qed
qed

lemma generatePrime_Inr:
  "generatePrime range' maxTries draws = Some (Inr (num, rest)) \<Longrightarrow>
     length rest < length draws \<and> isPrime num"
  unfolding generatePrime_def by (rule generatePrime_loop_Inr)

section \<open>The RSA engine (utils/rsa.js)\<close>

text \<open>
  The functions \<open>select_e\<close> and \<open>mod_inverse\<close> return a bigint or \<open>null\<close>, here an
  \<open>int option\<close>.
\<close>

function select_e_loop :: "int \<Rightarrow> int \<Rightarrow> int option" where
  "select_e_loop phi_n e =
     (if e < phi_n
      then (if gcd_bigint e phi_n = 1 then Some e else select_e_loop phi_n (e + 1))
      else None)"
  by pat_completeness auto
termination
  by (relation "measure (\<lambda>(phi_n, e). nat (phi_n - e))") auto

declare select_e_loop.simps [simp del]

definition select_e :: "int \<Rightarrow> int option" where
  "select_e phi_n = select_e_loop phi_n 2"

text \<open>
  The loop of \<open>mod_inverse\<close> over \<open>a\<close>, \<open>m\<close>, \<open>x0\<close> and \<open>x1\<close>: \<open>None\<close> when it returns
  \<open>null\<close> from inside, otherwise the value of \<open>x1\<close> when it ends.
\<close>

function mod_inverse_loop :: "int \<Rightarrow> int \<Rightarrow> int \<Rightarrow> int \<Rightarrow> int option" where
  "mod_inverse_loop a m x0 x1 =
     (if 1 < a
      then (if m = 0 then None
            else let q = js_quot a m
                 in mod_inverse_loop m (js_rem a m) (x1 - q * x0) x0)
      else Some x1)"
  by pat_completeness auto
termination
proof (relation "measure (\<lambda>(a, m, x0, x1). nat \<bar>m\<bar>)")
  show "wf (measure (\<lambda>(a, m, x0, x1). nat \<bar>m\<bar>))" by simp
next
  fix a m x0 x1 q :: int
  assume "m \<noteq> 0"
  then have "\<bar>a\<bar> mod \<bar>m\<bar> < \<bar>m\<bar>" by simp
  moreover have "\<bar>js_rem a m\<bar> = \<bar>a\<bar> mod \<bar>m\<bar>"
    by (rule abs_js_rem)
  ultimately show "((m, js_rem a m, x1 - q * x0, x0), (a, m, x0, x1))
      \<in> measure (\<lambda>(a, m, x0, x1). nat \<bar>m\<bar>)" by simp
qed

declare mod_inverse_loop.simps [simp del]

definition mod_inverse :: "int \<Rightarrow> int \<Rightarrow> int option" where
  "mod_inverse e phi_n =
     (if phi_n = 1 then Some 0
      else case mod_inverse_loop e phi_n 0 1 of
             None \<Rightarrow> None
           | Some x1 \<Rightarrow> Some (if x1 < 0 then x1 + phi_n else x1))"

text \<open>
  \<open>**\<close> on bigints raises on a negative exponent, \<open>%\<close> on a zero divisor. Keys and cipher
  symbols cross the functions as decimal strings (\<open>toString\<close>, then \<open>BigInt\<close>); the two
  conversions are inverse to each other and the model passes the integers themselves.
  Bigints have no size limit in the model.
\<close>

definition bigint_pow :: "int \<Rightarrow> int \<Rightarrow> js_error + int" where
  "bigint_pow b ex =
     (if ex < 0 then Inl (RangeError ''Exponent must be non-negative'')
      else Inr (b ^ nat ex))"

definition bigint_rem :: "int \<Rightarrow> int \<Rightarrow> js_error + int" where
  "bigint_rem a b = (if b = 0 then Inl (RangeError ''Division by zero'') else Inr (js_rem a b))"

definition encrypt_char :: "int \<Rightarrow> int \<Rightarrow> int \<Rightarrow> js_error + int" where
  "encrypt_char char_code e n =
     (case bigint_pow char_code e of Inl err \<Rightarrow> Inl err | Inr pw \<Rightarrow> bigint_rem pw n)"

definition decrypt_char :: "int \<Rightarrow> int \<Rightarrow> int \<Rightarrow> js_error + int" where
  "decrypt_char encrypted_char_code d n =
     (case bigint_pow encrypted_char_code d of Inl err \<Rightarrow> Inl err | Inr pw \<Rightarrow> bigint_rem pw n)"

record key_pair =
  public_key :: "int \<times> int"
  private_key :: "int \<times> int"

text \<open>The loop \<open>while (p === q) q = generatePrime(primeRange)\<close>.\<close>

function (sequential) redraw_q :: "int \<Rightarrow> int \<Rightarrow> int \<Rightarrow> int list \<Rightarrow> int drawing" where
  "redraw_q primeRange p q draws =
     (if p = q
      then (case generatePrime primeRange 1000 draws of
              None \<Rightarrow> None
            | Some (Inl err) \<Rightarrow> Some (Inl err)
            | Some (Inr (q', draws')) \<Rightarrow> redraw_q primeRange p q' draws')
      else Some (Inr (q, draws)))"
  by pat_completeness auto
termination
proof (relation "measure (\<lambda>(primeRange, p, q, draws). length draws)")
  show "wf (measure (\<lambda>(primeRange, p, q, draws). length draws))" by simp
next
  fix primeRange p q :: int and draws :: "int list" and x2 y q' draws'
  assume "generatePrime primeRange 1000 draws = Some x2" and "x2 = Inr y" and "(q', draws') = y"
  then have "generatePrime primeRange 1000 draws = Some (Inr (q', draws'))" by simp
  then have "length draws' < length draws" by (simp add: generatePrime_Inr)
  then show "((primeRange, p, q', draws'), (primeRange, p, q, draws))
      \<in> measure (\<lambda>(primeRange, p, q, draws). length draws)" by simp
qed

declare redraw_q.simps [simp del]

lemma redraw_q_Inr:
  "redraw_q primeRange p q0 draws = Some (Inr (q, rest)) \<Longrightarrow>
     length rest \<le> length draws \<and> p \<noteq> q \<and> (isPrime q0 \<longrightarrow> isPrime q)"
proof (induction primeRange p q0 draws rule: redraw_q.induct)
  case (1 primeRange p q0 draws)
  show ?case
  proof (cases "p = q0")
    case False
    with "1.prems" show ?thesis by (subst (asm) redraw_q.simps) auto
  next
    case True
    with "1.prems" obtain q' draws' where
      g: "generatePrime primeRange 1000 draws = Some (Inr (q', draws'))"
      by (subst (asm) redraw_q.simps) (auto split: option.splits sum.splits)
    with "1.prems" True have "redraw_q primeRange p q' draws' = Some (Inr (q, rest))"
      by (subst (asm) redraw_q.simps) simp
    from "1.IH" [OF True g refl refl this] generatePrime_Inr [OF g]
    show ?thesis by simp
  qed
qed

text \<open>
  \<open>generate_rsa_keys\<close>. Each \<open>generatePrime(primeRange)\<close> runs with the default
  \<open>maxTries = 1000\<close>; an exception it raises leaves \<open>generate_rsa_keys\<close> too.
\<close>

function generate_rsa_keys :: "int \<Rightarrow> int list \<Rightarrow> key_pair drawing" where
  "generate_rsa_keys primeRange draws =
     (case generatePrime primeRange 1000 draws of
        None \<Rightarrow> None
      | Some (Inl err) \<Rightarrow> Some (Inl err)
      | Some (Inr (p, draws1)) \<Rightarrow>
          (case generatePrime primeRange 1000 draws1 of
             None \<Rightarrow> None
           | Some (Inl err) \<Rightarrow> Some (Inl err)
           | Some (Inr (q0, draws2)) \<Rightarrow>
               (case redraw_q primeRange p q0 draws2 of
                  None \<Rightarrow> None
                | Some (Inl err) \<Rightarrow> Some (Inl err)
                | Some (Inr (q, draws3)) \<Rightarrow>
                    (let n = p * q;
                         phi_n = (p - 1) * (q - 1)
                     in case select_e phi_n of
                          None \<Rightarrow> generate_rsa_keys (primeRange + 500) draws3
                        | Some e \<Rightarrow>
                            (case mod_inverse e phi_n of
                               None \<Rightarrow> generate_rsa_keys (primeRange + 500) draws3
                             | Some d \<Rightarrow>
                                 Some (Inr (\<lparr>public_key = (e, n), private_key = (d, n)\<rparr>,
                                            draws3)))))))"
  by pat_completeness auto
termination
  apply (relation "measure (\<lambda>(primeRange, draws). length draws)")
  apply simp
  apply (auto dest!: generatePrime_Inr redraw_q_Inr)
  done

declare generate_rsa_keys.simps [simp del]

text \<open>
  \<open>encrypt_message\<close> takes the message apart into its UTF-16 units (\<open>msg.split('')\<close>),
  reads the code of each (\<open>charCodeAt(0)\<close>) and maps the codes through \<open>encrypt_char\<close>;
  the first exception ends the \<open>map\<close>.
\<close>

definition char_codes :: "jsstring \<Rightarrow> int list" where
  "char_codes msg = map uint msg"

fun encrypt_codes :: "int list \<Rightarrow> int \<times> int \<Rightarrow> js_error + int list" where
  "encrypt_codes [] public_key' = Inr []"
| "encrypt_codes (code # codes) public_key' =
     (case encrypt_char code (fst public_key') (snd public_key') of
        Inl err \<Rightarrow> Inl err
      | Inr c \<Rightarrow>
          (case encrypt_codes codes public_key' of
             Inl err \<Rightarrow> Inl err
           | Inr cs \<Rightarrow> Inr (c # cs)))"

definition encrypt_message :: "jsstring \<Rightarrow> int \<times> int \<Rightarrow> js_error + int list" where
  "encrypt_message msg public_key' = encrypt_codes (char_codes msg) public_key'"

text \<open>The invariant of the loop of \<open>mod_inverse\<close> (the extended Euclidean algorithm).\<close>

definition inverse_inv :: "int \<Rightarrow> int \<Rightarrow> int \<Rightarrow> int \<Rightarrow> int \<Rightarrow> int \<Rightarrow> bool" where
  "inverse_inv e phi a m x0 x1 =
     (1 \<le> a \<and> 0 \<le> m \<and> coprime a m \<and> phi dvd (x1 * e - a) \<and> phi dvd (x0 * e - m) \<and>
      \<bar>x1\<bar> < phi \<and>
      ((x0 \<le> 0 \<and> 0 \<le> x1 \<and> x1 * m - x0 * a = phi) \<or>
       (0 \<le> x0 \<and> x1 \<le> 0 \<and> x0 * a - x1 * m = phi)))"


section \<open>The relay broker (server.js)\<close>

text \<open>
  The values \<open>JSON.parse\<close> produces, and \<open>undefined\<close> for a property that is absent (it
  stands for nothing else: JSON has no \<open>undefined\<close> inside an array or an object). A
  finite number is given by an integer; a fraction behaves as a non-zero integer in
  everything the broker does. \<open>JSON.parse\<close> also gives the negative zero (for \<open>-0\<close>) and
  the two infinities (for a literal beyond the range of a double, as \<open>1e400\<close>). \<open>JObj\<close>
  lists the own properties of an object in their order. Arrays and objects are compared
  by reference: two of them that come from different frames are never \<open>===\<close>.
\<close>

datatype jsnumber = Finite int | NegativeZero | PositiveInfinity | NegativeInfinity

datatype jsval =
    JUndefined
  | JNull
  | JBool bool
  | JNum jsnumber
  | JStr string
  | JArr "jsval list"
  | JObj "(string \<times> jsval) list"

fun is_zero :: "jsnumber \<Rightarrow> bool" where
  "is_zero (Finite k) = (k = 0)"
| "is_zero NegativeZero = True"
| "is_zero PositiveInfinity = False"
| "is_zero NegativeInfinity = False"

fun truthy :: "jsval \<Rightarrow> bool" where
  "truthy JUndefined = False"
| "truthy JNull = False"
| "truthy (JBool b) = b"
| "truthy (JNum x) = (\<not> is_zero x)"
| "truthy (JStr s) = (s \<noteq> [])"
| "truthy (JArr xs) = True"
| "truthy (JObj kvs) = True"

text \<open>\<open>a || b\<close>\<close>

definition js_or :: "jsval \<Rightarrow> jsval \<Rightarrow> jsval" where
  "js_or a b = (if truthy a then a else b)"

text \<open>\<open>a === b\<close>, for a value stored from an earlier frame and one of the current frame.\<close>

fun strict_eq :: "jsval \<Rightarrow> jsval \<Rightarrow> bool" where
  "strict_eq JUndefined JUndefined = True"
| "strict_eq JNull JNull = True"
| "strict_eq (JBool a) (JBool b) = (a = b)"
| "strict_eq (JNum a) (JNum b) = (a = b \<or> is_zero a \<and> is_zero b)"
| "strict_eq (JStr a) (JStr b) = (a = b)"
| "strict_eq a b = False"

text \<open>
  The conversion of a value to a string, which a template literal \<open>`${v}`\<close>, \<open>String(v)\<close>,
  \<open>'' + v\<close> (inside \<open>chalk.bold(v)\<close>) and \<open>join\<close> apply. It returns for every primitive
  value. For an array it joins the conversions of the elements. For an object it calls
  the property \<open>toString\<close>: the one inherited from \<open>Object.prototype\<close>, unless the object
  has a property of that name of its own; a parsed object's own property is never a
  function, and then the conversion throws a \<open>TypeError\<close> (the method \<open>valueOf\<close>, own or
  inherited, gives no primitive value either). \<open>printable v\<close> says that the conversion of
  \<open>v\<close> returns. The text it returns is not modelled.
\<close>

fun printable :: "jsval \<Rightarrow> bool" where
  "printable (JArr xs) = list_all printable xs"
| "printable (JObj kvs) = (''toString'' \<notin> set (map fst kvs))"
| "printable v = True"

definition not_primitive :: js_error where
  "not_primitive = TypeError ''Cannot convert object to primitive value''"

text \<open>A template literal over the values \<open>vs\<close>: the exception it throws, if it throws.\<close>

definition template_literal :: "jsval list \<Rightarrow> js_error option" where
  "template_literal vs = (if list_all printable vs then None else Some not_primitive)"

text \<open>
  What \<open>JSON.stringify\<close> makes of a value, read back: a number that is not finite is
  written as \<open>null\<close> and the negative zero as \<open>0\<close>; everything else is written as it is. A
  property whose value is \<open>undefined\<close> is left out of the record, so that its reader finds
  \<open>undefined\<close> there. No parsed value has a method \<open>toJSON\<close>.
\<close>

fun wire :: "jsval \<Rightarrow> jsval" where
  "wire (JNum (Finite k)) = JNum (Finite k)"
| "wire (JNum NegativeZero) = JNum (Finite 0)"
| "wire (JNum PositiveInfinity) = JNull"
| "wire (JNum NegativeInfinity) = JNull"
| "wire (JArr xs) = JArr (map wire xs)"
| "wire (JObj kvs) = JObj (map (\<lambda>(k, v). (k, wire v)) kvs)"
| "wire v = v"

text \<open>\<open>exact v\<close>: no number inside \<open>v\<close> is an infinity or the negative zero.\<close>

fun exact :: "jsval \<Rightarrow> bool" where
  "exact (JNum x) = (case x of Finite k \<Rightarrow> True | _ \<Rightarrow> False)"
| "exact (JArr xs) = list_all exact xs"
| "exact (JObj kvs) = list_all (\<lambda>(k, v). exact v) kvs"
| "exact v = True"

text \<open>
  A socket is an object; the model names it by a number. The registry \<open>clients\<close> is a
  JavaScript \<open>Map\<close> from identifier strings to entries: it iterates in insertion order, and
  \<open>set\<close> on a key it holds replaces the value where the key stands.
\<close>

type_synonym sock = nat

record client =
  socket :: sock
  name :: jsval
  public_key' :: jsval

type_synonym registry = "(string \<times> client) list"

fun Map_set :: "string \<Rightarrow> client \<Rightarrow> registry \<Rightarrow> registry" where
  "Map_set k v [] = [(k, v)]"
| "Map_set k v ((k', v') # rest) =
     (if k' = k then (k, v) # rest else (k', v') # Map_set k v rest)"

fun Map_get :: "registry \<Rightarrow> string \<Rightarrow> client option" where
  "Map_get [] k = None"
| "Map_get ((k', v') # rest) k = (if k' = k then Some v' else Map_get rest k)"

fun Map_delete :: "string \<Rightarrow> registry \<Rightarrow> registry" where
  "Map_delete k [] = []"
| "Map_delete k ((k', v') # rest) =
     (if k' = k then Map_delete k rest else (k', v') # Map_delete k rest)"

text \<open>\<open>clients.get(x)\<close> for any value \<open>x\<close>: the keys are strings, nothing else is found.\<close>

definition clients_get :: "registry \<Rightarrow> jsval \<Rightarrow> client option" where
  "clients_get cl x = (case x of JStr k \<Rightarrow> Map_get cl k | _ \<Rightarrow> None)"

text \<open>\<open>clients.get(clientIdentifier)?.name || clientIdentifier\<close>\<close>

definition name_or_identifier :: "client option \<Rightarrow> string \<Rightarrow> jsval" where
  "name_or_identifier info clientIdentifier =
     js_or (case info of Some clientData \<Rightarrow> name clientData | None \<Rightarrow> JUndefined)
       (JStr clientIdentifier)"

text \<open>
  The state of the broker: the registry, which sockets are writable at the moment (set
  by the transport, read by the broker), and the property \<open>identifier\<close> that \<open>REGISTER\<close>
  puts on a socket (\<open>socket_identifier\<close>).
\<close>

record broker =
  clients :: registry
  writable :: "sock \<Rightarrow> bool"
  socket_identifier :: "sock \<Rightarrow> string option"

text \<open>
  The records the broker writes. Fields that are fixed texts are left out;
  \<open>ERROR_unknown_type\<close> carries the type its message quotes.
\<close>

datatype server_record =
    REGISTER_ACK string
  | CLIENT_LIST "(string \<times> jsval) list"
  | START_CHAT_INFO jsval jsval jsval
  | TARGET_NOT_FOUND jsval
  | INCOMING_MESSAGE string jsval jsval
  | DELIVERY_ERROR jsval
  | ERROR_unknown_type jsval
  | ERROR_invalid_format

type_synonym writes = "(sock \<times> server_record) list"

text \<open>\<open>JSON.stringify(data)\<close>: the record a reader of the line gets.\<close>

fun stringified :: "server_record \<Rightarrow> server_record" where
  "stringified (CLIENT_LIST clientList) =
     CLIENT_LIST (map (\<lambda>(id', client_name). (id', wire client_name)) clientList)"
| "stringified (START_CHAT_INFO target_identifier target_name target_key) =
     START_CHAT_INFO (wire target_identifier) (wire target_name) (wire target_key)"
| "stringified (TARGET_NOT_FOUND target_identifier) = TARGET_NOT_FOUND (wire target_identifier)"
| "stringified (INCOMING_MESSAGE sender senderName encryptedMessage) =
     INCOMING_MESSAGE sender (wire senderName) (wire encryptedMessage)"
| "stringified (DELIVERY_ERROR recipient) = DELIVERY_ERROR (wire recipient)"
| "stringified data = data"

text \<open>
  \<open>sendJson(socket, data)\<close> writes one line to the socket when the socket is writable, and
  nothing otherwise. An exception of \<open>socket.write\<close> is caught there and logged; the model
  takes a write to a writable socket as done. The limits of the engine (the depth of its
  call stack, the length of a string) are not modelled.
\<close>

definition sendJson :: "broker \<Rightarrow> sock \<Rightarrow> server_record \<Rightarrow> writes" where
  "sendJson st sk data = (if writable st sk then [(sk, stringified data)] else [])"

text \<open>
  The scan of \<open>START_CHAT_REQUEST_PK\<close>: the first entry, in the order of the registry,
  whose name is the target and whose identifier is not the requester's.
\<close>

fun scan_by_name :: "registry \<Rightarrow> jsval \<Rightarrow> string \<Rightarrow> (string \<times> client) option" where
  "scan_by_name [] targetIdentifier clientIdentifier = None"
| "scan_by_name ((id', clientEntry) # rest) targetIdentifier clientIdentifier =
     (if strict_eq (name clientEntry) targetIdentifier \<and> id' \<noteq> clientIdentifier
      then Some (id', clientEntry)
      else scan_by_name rest targetIdentifier clientIdentifier)"

text \<open>
  A parsed frame is an object, given by its properties (\<open>JUndefined\<close> where it has none).
  Each case of the \<open>switch\<close> gives the state and the lines written when control leaves it,
  and the exception that left it, if one did. The lines of the log matter for that alone:
  a template literal converts its values to strings, which throws for some of them. Line
  47 prints the frame through \<open>util.inspect\<close>, which calls no method of the value.
  The \<open>return\<close> in the case \<open>MESSAGE\<close> also leaves the handler of the \<open>data\<close> event, so that
  lines still in its buffer wait for the next event; the model handles one line.
\<close>

type_synonym message = "string \<Rightarrow> jsval"

type_synonym outcome = "broker \<times> writes \<times> js_error option"

definition on_REGISTER :: "broker \<Rightarrow> sock \<Rightarrow> string \<Rightarrow> message \<Rightarrow> outcome" where
  "on_REGISTER st sk clientIdentifier message =
     (let st1 = st\<lparr>clients :=
                  Map_set clientIdentifier
                    \<lparr>socket = sk, name = js_or (message ''name'') (JStr ''''),
                     public_key' = message ''public_key''\<rparr>
                    (clients st)\<rparr>;
          st2 = st1\<lparr>socket_identifier := (socket_identifier st1)(sk \<mapsto> clientIdentifier)\<rparr>;
          clientDisplayName = js_or (message ''name'') (JStr clientIdentifier)
      in case template_literal [clientDisplayName] of
           Some e \<Rightarrow> (st2, [], Some e)
         | None \<Rightarrow> (st2, sendJson st2 sk (REGISTER_ACK clientIdentifier), None))"

definition on_LIST_REQUEST :: "broker \<Rightarrow> sock \<Rightarrow> string \<Rightarrow> message \<Rightarrow> outcome" where
  "on_LIST_REQUEST st sk clientIdentifier message =
     (let clientList = map (\<lambda>(id', clientData). (id', name clientData)) (clients st)
      in (st, sendJson st sk (CLIENT_LIST clientList),
          template_literal
            [name_or_identifier (Map_get (clients st) clientIdentifier) clientIdentifier]))"

definition on_START_CHAT_REQUEST_PK :: "broker \<Rightarrow> sock \<Rightarrow> string \<Rightarrow> message \<Rightarrow> outcome" where
  "on_START_CHAT_REQUEST_PK st sk clientIdentifier message =
     (let requesterInfo = Map_get (clients st) clientIdentifier;
          targetIdentifier = message ''targetIdentifier'';
          found =
            (case clients_get (clients st) targetIdentifier of
               Some targetClientData \<Rightarrow> Some (targetIdentifier, targetClientData)
             | None \<Rightarrow>
                 if truthy targetIdentifier
                 then (case scan_by_name (clients st) targetIdentifier clientIdentifier of
                         Some (id', clientEntry) \<Rightarrow> Some (JStr id', clientEntry)
                       | None \<Rightarrow> None)
                 else None)
      in case found of
           Some (message_targetIdentifier, targetClientData) \<Rightarrow>
             (st,
              sendJson st sk
                (START_CHAT_INFO message_targetIdentifier (name targetClientData)
                   (public_key' targetClientData)),
              template_literal
                [js_or (name targetClientData) message_targetIdentifier,
                 name_or_identifier requesterInfo clientIdentifier])
         | None \<Rightarrow>
             (st,
              sendJson st sk (TARGET_NOT_FOUND targetIdentifier),
              template_literal
                [targetIdentifier, name_or_identifier requesterInfo clientIdentifier]))"

text \<open>
  The values that the preview of the payload (lines 115 to 117) converts to strings: the
  first three elements of an array (\<open>slice(0, 3).join(', ')\<close>), and any other value whole.
\<close>

fun preview_values :: "jsval \<Rightarrow> jsval list" where
  "preview_values (JArr xs) = take 3 xs"
| "preview_values v = [v]"

definition on_MESSAGE :: "broker \<Rightarrow> sock \<Rightarrow> string \<Rightarrow> message \<Rightarrow> outcome" where
  "on_MESSAGE st sk clientIdentifier message =
     (let receiver = message ''receiver'';
          encryptedMessage = message ''encryptedMessage'';
          senderIdentifier = clientIdentifier
      in case Map_get (clients st) senderIdentifier of
           None \<Rightarrow> (st, [], None)
         | Some senderClient \<Rightarrow>
             (let receiverClient = clients_get (clients st) receiver;
                  transaction_log =
                    template_literal
                      ([js_or (name senderClient) (JStr senderIdentifier)] @
                       preview_values encryptedMessage @
                       [case receiverClient of
                          Some receiverEntry \<Rightarrow> js_or (name receiverEntry) receiver
                        | None \<Rightarrow> receiver]);
                  not_delivered =
                    (if writable st (socket senderClient)
                     then sendJson st (socket senderClient) (DELIVERY_ERROR receiver)
                     else [])
              in case transaction_log of
                   Some e \<Rightarrow> (st, [], Some e)
                 | None \<Rightarrow>
                     (case receiverClient of
                        None \<Rightarrow> (st, not_delivered, template_literal [receiver])
                      | Some receiverEntry \<Rightarrow>
                          if writable st (socket receiverEntry)
                          then (st,
                                sendJson st (socket receiverEntry)
                                  (INCOMING_MESSAGE senderIdentifier (name senderClient)
                                     encryptedMessage),
                                None)
                          else (st, not_delivered, template_literal [receiver]))))"

text \<open>The \<open>switch\<close> on the type of the record, with its \<open>default\<close>.\<close>

definition switch_type :: "broker \<Rightarrow> sock \<Rightarrow> string \<Rightarrow> message \<Rightarrow> outcome" where
  "switch_type st sk clientIdentifier message =
     (if message ''type'' = JStr ''REGISTER'' then on_REGISTER st sk clientIdentifier message
      else if message ''type'' = JStr ''LIST_REQUEST''
        then on_LIST_REQUEST st sk clientIdentifier message
      else if message ''type'' = JStr ''START_CHAT_REQUEST_PK''
        then on_START_CHAT_REQUEST_PK st sk clientIdentifier message
      else if message ''type'' = JStr ''MESSAGE'' then on_MESSAGE st sk clientIdentifier message
      else (case template_literal [message ''type''] of
              Some e \<Rightarrow> (st, [], Some e)
            | None \<Rightarrow> (st, sendJson st sk (ERROR_unknown_type (message ''type'')), None)))"

text \<open>
  The \<open>try\<close> around the \<open>switch\<close>: an exception is answered by the record of the \<open>catch\<close>
  branch, after whatever the case had done when it threw.
\<close>

definition on_record :: "broker \<Rightarrow> sock \<Rightarrow> string \<Rightarrow> message \<Rightarrow> broker \<times> writes" where
  "on_record st sk clientIdentifier message =
     (case switch_type st sk clientIdentifier message of
        (st', written, None) \<Rightarrow> (st', written)
      | (st', written, Some e) \<Rightarrow> (st', written @ sendJson st' sk ERROR_invalid_format))"

text \<open>
  One line of the stream: \<open>JSON.parse\<close> gives an object, or the \<open>catch\<close> branch answers
  (the line is not JSON, or is \<open>null\<close>, whose property \<open>type\<close> cannot be read). A line
  that is a number, a string, a boolean or an array has no property \<open>type\<close>, as an object
  without properties.
\<close>

datatype frame = Invalid | Object message

fun on_frame :: "broker \<Rightarrow> sock \<Rightarrow> string \<Rightarrow> frame \<Rightarrow> broker \<times> writes" where
  "on_frame st sk clientIdentifier Invalid = (st, sendJson st sk ERROR_invalid_format)"
| "on_frame st sk clientIdentifier (Object message) = on_record st sk clientIdentifier message"

text \<open>\<open>socket.identifier || clientIdentifier\<close>\<close>

definition registered_key :: "broker \<Rightarrow> sock \<Rightarrow> string \<Rightarrow> string" where
  "registered_key st sk clientIdentifier =
     (case socket_identifier st sk of
        Some s \<Rightarrow> if s \<noteq> [] then s else clientIdentifier
      | None \<Rightarrow> clientIdentifier)"

text \<open>
  The handlers of the socket events \<open>end\<close> and \<open>error\<close>. Nothing in server.js catches an
  exception of theirs: each gives the state when control leaves it, and the exception
  that left it, if one did. The handler of \<open>end\<close> deletes the entry and then builds its
  line of the log; the handler of \<open>error\<close> builds its line first (line 166) and deletes
  after it (line 168).
\<close>

definition on_end :: "broker \<Rightarrow> sock \<Rightarrow> string \<Rightarrow> broker \<times> js_error option" where
  "on_end st sk clientIdentifier =
     (let key = registered_key st sk clientIdentifier
      in case Map_get (clients st) key of
           Some clientData \<Rightarrow>
             (st\<lparr>clients := Map_delete key (clients st)\<rparr>,
              template_literal [js_or (name clientData) (JStr key)])
         | None \<Rightarrow> (st, None))"

definition on_error :: "broker \<Rightarrow> sock \<Rightarrow> string \<Rightarrow> broker \<times> js_error option" where
  "on_error st sk clientIdentifier =
     (let key = registered_key st sk clientIdentifier;
          clientName =
            (case Map_get (clients st) key of
               Some clientData \<Rightarrow> js_or (name clientData) (JStr key)
             | None \<Rightarrow> JStr clientIdentifier)
      in case template_literal [clientName] of
           Some e \<Rightarrow> (st, Some e)
         | None \<Rightarrow>
             if Map_get (clients st) key \<noteq> None
             then (st\<lparr>clients := Map_delete key (clients st)\<rparr>, template_literal [clientName])
             else (st, None))"

text \<open>
  What the specification says of \<open>START_CHAT\<close>: the target found under its identifier, and
  otherwise the first other entry whose display name is the requested value.
\<close>

definition resolve_target_spec :: "registry \<Rightarrow> string \<Rightarrow> jsval \<Rightarrow> (jsval \<times> client) option" where
  "resolve_target_spec cl requester target =
     (case clients_get cl target of
        Some entry \<Rightarrow> Some (target, entry)
      | None \<Rightarrow>
          (case find (\<lambda>(id', entry). strict_eq (name entry) target \<and> id' \<noteq> requester) cl of
             Some (id', entry) \<Rightarrow> Some (JStr id', entry)
           | None \<Rightarrow> None))"

definition start_chat_reply :: "(jsval \<times> client) option \<Rightarrow> jsval \<Rightarrow> server_record" where
  "start_chat_reply resolved target =
     (case resolved of
        Some (id', entry) \<Rightarrow> START_CHAT_INFO id' (name entry) (public_key' entry)
      | None \<Rightarrow> TARGET_NOT_FOUND target)"

text \<open>
  The same with the guard of the code: the scan runs only for a requested value that is
  truthy (so not for the empty string, and not for an absent one).
\<close>

definition resolve_target_guarded :: "registry \<Rightarrow> string \<Rightarrow> jsval \<Rightarrow> (jsval \<times> client) option" where
  "resolve_target_guarded cl requester target =
     (case clients_get cl target of
        Some entry \<Rightarrow> Some (target, entry)
      | None \<Rightarrow>
          if truthy target
          then (case find (\<lambda>(id', entry). strict_eq (name entry) target \<and> id' \<noteq> requester) cl of
                  Some (id', entry) \<Rightarrow> Some (JStr id', entry)
                | None \<Rightarrow> None)
          else None)"

text \<open>States and frames for the examples below.\<close>

definition no_properties :: message where
  "no_properties = (\<lambda>property. JUndefined)"

definition alice :: client where
  "alice = \<lparr>socket = 1, name = JStr ''alice'',
             public_key' = JObj [(''e'', JStr ''3''), (''n'', JStr ''33'')]\<rparr>"

definition bob :: client where
  "bob = \<lparr>socket = 2, name = JStr ''bob'',
           public_key' = JObj [(''e'', JStr ''7''), (''n'', JStr ''143'')]\<rparr>"

definition nameless :: client where
  "nameless = \<lparr>socket = 3, name = JStr [],
                public_key' = JObj [(''e'', JStr ''5''), (''n'', JStr ''221'')]\<rparr>"

definition all_writable :: "sock \<Rightarrow> bool" where
  "all_writable = (\<lambda>sk. True)"

definition none_writable :: "sock \<Rightarrow> bool" where
  "none_writable = (\<lambda>sk. False)"

definition three_clients :: broker where
  "three_clients =
     \<lparr>clients =
        [(''10.0.0.1:5001'', alice), (''10.0.0.2:5002'', bob), (''10.0.0.3:5003'', nameless)],
      writable = all_writable,
      socket_identifier =
        [1 \<mapsto> ''10.0.0.1:5001'', 2 \<mapsto> ''10.0.0.2:5002'', 3 \<mapsto> ''10.0.0.3:5003'']\<rparr>"

definition after_shutdown :: broker where
  "after_shutdown = three_clients\<lparr>writable := none_writable\<rparr>"

definition start_chat_request :: "jsval \<Rightarrow> message" where
  "start_chat_request target =
     no_properties(''type'' := JStr ''START_CHAT_REQUEST_PK'', ''targetIdentifier'' := target)"

definition message_record :: "jsval \<Rightarrow> jsval \<Rightarrow> message" where
  "message_record receiver payload =
     no_properties(''type'' := JStr ''MESSAGE'', ''receiver'' := receiver,
       ''encryptedMessage'' := payload)"

definition register_record :: "jsval \<Rightarrow> jsval \<Rightarrow> message" where
  "register_record client_name key =
     no_properties(''type'' := JStr ''REGISTER'', ''name'' := client_name, ''public_key'' := key)"

text \<open>The parsed \<open>{"toString": 1}\<close>: an object whose conversion to a string throws.\<close>

definition own_toString :: jsval where
  "own_toString = JObj [(''toString'', JNum (Finite 1))]"

text \<open>
  The states the broker can be in: it starts with an empty registry
  (\<open>const clients = new Map()\<close>); a connection delivers a line, ends or fails; and the
  transport changes which sockets are writable.
\<close>

definition initial_broker :: "(sock \<Rightarrow> bool) \<Rightarrow> broker" where
  "initial_broker w = \<lparr>clients = [], writable = w, socket_identifier = Map.empty\<rparr>"

inductive reachable :: "broker \<Rightarrow> bool" where
  started: "reachable (initial_broker w)"
| line: "reachable st \<Longrightarrow> reachable (fst (on_frame st sk clientIdentifier fr))"
| ended: "reachable st \<Longrightarrow> reachable (fst (on_end st sk clientIdentifier))"
| failed: "reachable st \<Longrightarrow> reachable (fst (on_error st sk clientIdentifier))"
| transport: "reachable st \<Longrightarrow> reachable (st\<lparr>writable := w\<rparr>)"

text \<open>
  A client that registered the name \<open>{"toString": 1}\<close>: the state after its \<open>REGISTER\<close>
  record, sent on a fresh broker.
\<close>

definition mallory_registered :: broker where
  "mallory_registered =
     fst (on_frame (initial_broker all_writable) 4 ''10.0.0.4:5004''
            (Object (register_record own_toString JNull)))"

section \<open>Hamming(7,4): single-error correction\<close>

lemma length4E:
  assumes "length N = 4"
  obtains a b c d where "N = [a, b, c, d]"
  using assms by (auto simp: length_Suc_conv numeral_eq_Suc)

lemma all_nibbles:
  assumes chk: "list_all (\<lambda>a. list_all (\<lambda>b. list_all (\<lambda>c. list_all (\<lambda>d.
     P [a, b, c, d]) [0, 1]) [0, 1]) [0, 1]) [0, 1::int]"
    and len: "length N = 4" and bits: "set N \<subseteq> {0, 1}"
  shows "P N"
proof -
  obtain a b c d where N: "N = [a, b, c, d]" using len by (rule length4E)
  have mem: "a \<in> set [0, 1]" "b \<in> set [0, 1]" "c \<in> set [0, 1]" "d \<in> set [0, 1]"
    using bits N by auto
  have "\<forall>a\<in>set [0, 1]. \<forall>b\<in>set [0, 1]. \<forall>c\<in>set [0, 1]. \<forall>d\<in>set [0, 1::int]. P [a, b, c, d]"
    using chk unfolding list_all_iff .
  with mem show ?thesis unfolding N by blast
qed

lemma corrects_all_nibbles:
  "list_all (\<lambda>a. list_all (\<lambda>b. list_all (\<lambda>c. list_all (\<lambda>d.
     corrects_all_flips [a, b, c, d]) [0, 1]) [0, 1]) [0, 1]) [0, 1]"
  by code_simp

text \<open>
  C3. For every nibble \<open>N\<close> of four bits and every 1-indexed position \<open>i\<close> from 1 to 7,
  \<open>encodeNibble N\<close> is a codeword \<open>w\<close>, decoding \<open>w\<close> with bit \<open>i\<close> flipped gives
  exactly \<open>N\<close>, and decoding \<open>w\<close> itself gives \<open>N\<close> too.
\<close>

theorem single_error_correction:
  assumes "length N = 4" and "set N \<subseteq> {0, 1}" and "1 \<le> i" and "i \<le> 7"
  shows "\<exists>w. encodeNibble N = Inr w \<and> decodeNibble (flip_bit_at i w) = Inr N \<and>
           decodeNibble w = Inr N"
proof -
  have i: "i \<in> set [1, 2, 3, 4, 5, 6, 7]" using assms(3,4) by (simp; arith)
  have "corrects_all_flips N"
    using corrects_all_nibbles assms(1,2) by (rule all_nibbles)
  then obtain w where w: "encodeNibble N = Inr w" "decodeNibble w = Inr N"
     "list_all (\<lambda>i. decodeNibble (flip_bit_at i w) = Inr N) [1, 2, 3, 4, 5, 6, 7]"
    unfolding corrects_all_flips_def by (auto split: sum.splits)
  from w(3) i have "decodeNibble (flip_bit_at i w) = Inr N"
    unfolding list_all_iff by blast
  with w show ?thesis by blast
qed

theorem single_error_correction_witness:
  "encodeNibble [1, 0, 1, 1] = Inr [0, 1, 1, 0, 0, 1, 1] \<and>
   flip_bit_at 5 [0, 1, 1, 0, 0, 1, 1] = [0, 1, 1, 0, 1, 1, 1] \<and>
   decodeNibble [0, 1, 1, 0, 1, 1, 1] = Inr [1, 0, 1, 1] \<and>
   decodeNibble [0, 1, 1, 0, 0, 1, 1] = Inr [1, 0, 1, 1]"
proof -
  have enc: "encodeNibble [1, 0, 1, 1] = Inr [0, 1, 1, 0, 0, 1, 1]" by code_simp
  have fl: "flip_bit_at 5 [0, 1, 1, 0, 0, 1, 1] = [0, 1, 1, 0, 1, 1, 1]" by code_simp
  have "length [1, 0, 1, 1::int] = 4" and "set [1, 0, 1, 1::int] \<subseteq> {0, 1}"
    and "(1::nat) \<le> 5" and "(5::nat) \<le> 7" by simp_all
  from single_error_correction [OF this] enc fl show ?thesis by simp
qed

section \<open>Hamming(7,4): messages\<close>

lemma packs_back_nibbles:
  "list_all (\<lambda>a. list_all (\<lambda>b. list_all (\<lambda>c. list_all (\<lambda>d.
     packs_back [a, b, c, d]) [0, 1]) [0, 1]) [0, 1]) [0, 1]"
  by code_simp

lemma shr_and1_bit: "shr_and1 x b \<in> {0, 1}"
  by (cases x) (auto simp: shr_and1_def and_one_eq)

lemma packs_back_highNibble: "packs_back (highNibble code)"
  by (rule all_nibbles [OF packs_back_nibbles]) (use shr_and1_bit in \<open>simp_all add: highNibble_def\<close>)

lemma packs_back_lowNibble: "packs_back (lowNibble code)"
  by (rule all_nibbles [OF packs_back_nibbles]) (use shr_and1_bit in \<open>simp_all add: lowNibble_def\<close>)

lemma packs_backD:
  assumes "packs_back N"
  obtains w where "encodeNibble N = Inr w" "fromCharCode (reduce_pack 0 0 w) \<le> 127"
    "map (shr_and1 (Some (uint (fromCharCode (reduce_pack 0 0 w))))) [6, 5, 4, 3, 2, 1, 0] = w"
    "decodeNibble w = Inr N"
  using assms unfolding packs_back_def by (auto simp: Let_def split: sum.splits)

lemma encodeChar_units:
  obtains wh wl where
    "encodeNibble (highNibble (charCodeAt ch 0)) = Inr wh"
    "encodeNibble (lowNibble (charCodeAt ch 0)) = Inr wl"
    "encodeChar ch = Inr [fromCharCode (reduce_pack 0 0 wh), fromCharCode (reduce_pack 0 0 wl)]"
    "fromCharCode (reduce_pack 0 0 wh) \<le> 127" "fromCharCode (reduce_pack 0 0 wl) \<le> 127"
    "decodePair (Some (uint (fromCharCode (reduce_pack 0 0 wh)))) (Some (uint (fromCharCode (reduce_pack 0 0 wl))))
       = Inr (fromCharCode (push_bit 4 (nibble_value (highNibble (charCodeAt ch 0))) OR nibble_value (lowNibble (charCodeAt ch 0))))"
proof -
  obtain wh where wh: "encodeNibble (highNibble (charCodeAt ch 0)) = Inr wh" "fromCharCode (reduce_pack 0 0 wh) \<le> 127"
    "map (shr_and1 (Some (uint (fromCharCode (reduce_pack 0 0 wh))))) [6, 5, 4, 3, 2, 1, 0] = wh"
    "decodeNibble wh = Inr (highNibble (charCodeAt ch 0))"
    using packs_back_highNibble by (rule packs_backD)
  obtain wl where wl: "encodeNibble (lowNibble (charCodeAt ch 0)) = Inr wl" "fromCharCode (reduce_pack 0 0 wl) \<le> 127"
    "map (shr_and1 (Some (uint (fromCharCode (reduce_pack 0 0 wl))))) [6, 5, 4, 3, 2, 1, 0] = wl"
    "decodeNibble wl = Inr (lowNibble (charCodeAt ch 0))"
    using packs_back_lowNibble by (rule packs_backD)
  have enc: "encodeChar ch = Inr [fromCharCode (reduce_pack 0 0 wh), fromCharCode (reduce_pack 0 0 wl)]"
    by (simp add: encodeChar_def wh(1) wl(1))
  have dec: "decodePair (Some (uint (fromCharCode (reduce_pack 0 0 wh)))) (Some (uint (fromCharCode (reduce_pack 0 0 wl))))
       = Inr (fromCharCode (push_bit 4 (nibble_value (highNibble (charCodeAt ch 0))) OR nibble_value (lowNibble (charCodeAt ch 0))))"
    unfolding decodePair_def Let_def wh(3) wl(3) by (simp add: wh(4) wl(4))
  from wh(1) wl(1) enc wh(2) wl(2) dec show ?thesis by (rule that)
qed


lemma hi_bits_zero: 
  assumes "0 \<le> x" "x < 256" "8 \<le> n" shows "\<not> bit (x::int) n"
proof -
  have tb: "take_bit 8 x = x" using assms by (simp add: take_bit_int_eq_self)
  have "\<not> bit (take_bit 8 x) n" using assms(3) by (simp add: bit_take_bit_iff)
  then show "\<not> bit x n" by (simp add: tb)
qed

lemma recombine:
  assumes "0 \<le> x" "x < 256"
  shows "push_bit 4 (push_bit 3 (drop_bit 7 x AND 1) OR push_bit 2 (drop_bit 6 x AND 1) OR push_bit 1 (drop_bit 5 x AND 1) OR (drop_bit 4 x AND 1)) 
   OR (push_bit 3 (drop_bit 3 x AND 1) OR push_bit 2 (drop_bit 2 x AND 1) OR push_bit 1 (drop_bit 1 x AND 1) OR (drop_bit 0 x AND 1)) = (x::int)"
proof (rule bit_eqI)
  fix n :: nat
  note hi = hi_bits_zero[OF assms]
  consider "n = 0" | "n = 1" | "n = 2" | "n = 3" | "n = 4" | "n = 5" | "n = 6" | "n = 7" | "8 \<le> n" by arith
  then show "bit (push_bit 4 (push_bit 3 (drop_bit 7 x AND 1) OR push_bit 2 (drop_bit 6 x AND 1) OR push_bit 1 (drop_bit 5 x AND 1) OR (drop_bit 4 x AND 1)) 
   OR (push_bit 3 (drop_bit 3 x AND 1) OR push_bit 2 (drop_bit 2 x AND 1) OR push_bit 1 (drop_bit 1 x AND 1) OR (drop_bit 0 x AND 1))) n = bit x n"
    by cases (simp_all add: bit_simps hi del: push_bit_Suc push_bit_of_Suc_0 One_nat_def)
qed

lemma nibbles_value:
  assumes "c \<le> (255 :: code_unit)"
  shows "fromCharCode (push_bit 4 (nibble_value (highNibble (Some (uint c)))) OR nibble_value (lowNibble (Some (uint c)))) = c"
proof -
  have "uint c \<le> uint (255 :: code_unit)" using assms by (simp only: word_le_def)
  then have b: "0 \<le> uint c" "uint c < 256" by simp_all
  have "push_bit 4 (nibble_value (highNibble (Some (uint c)))) OR nibble_value (lowNibble (Some (uint c))) = uint c"
    unfolding nibble_value_def highNibble_def lowNibble_def shr_and1_def
    using recombine[OF b] by (simp del: push_bit_Suc push_bit_of_Suc_0 One_nat_def)
  then show ?thesis by (simp add: fromCharCode_def)
qed

lemma encodeChar_two_units: "encodeChar ch = Inr (two_units ch)"
  by (rule encodeChar_units [of ch]) (simp add: two_units_def)

lemma length_two_units: "length (two_units ch) = 2"
  by (rule encodeChar_units [of ch]) (simp add: two_units_def)

lemma two_units_ascii: "u \<in> set (two_units ch) \<Longrightarrow> u \<le> 127"
  by (rule encodeChar_units [of ch]) (auto simp add: two_units_def)

lemma decodePair_two_units:
  assumes "c \<le> 255"
  shows "decodePair (Some (uint (two_units [c] ! 0))) (Some (uint (two_units [c] ! 1))) = Inr c"
proof (rule encodeChar_units [of "[c]"])
  fix wh wl
  assume enc: "encodeChar [c] = Inr [fromCharCode (reduce_pack 0 0 wh), fromCharCode (reduce_pack 0 0 wl)]"
    and dec: "decodePair (Some (uint (fromCharCode (reduce_pack 0 0 wh)))) (Some (uint (fromCharCode (reduce_pack 0 0 wl))))
       = Inr (fromCharCode (push_bit 4 (nibble_value (highNibble (charCodeAt [c] 0))) OR nibble_value (lowNibble (charCodeAt [c] 0))))"
  have cc: "charCodeAt [c] 0 = Some (uint c)" by (simp add: charCodeAt_def)
  show ?thesis
    using dec nibbles_value[OF assms] by (simp add: two_units_def enc cc)
qed

lemma encodeMessage_loop_concat:
  "encodeMessage_loop chs acc = Inr (acc @ concat (map two_units chs))"
  by (induction chs arbitrary: acc) (simp_all add: encodeChar_two_units)

lemma string_iterator_8bit:
  "\<forall>c\<in>set P. c \<le> 255 \<Longrightarrow> string_iterator P = map (\<lambda>c. [c]) P"
proof (induction P rule: string_iterator.induct)
  case (3 c d rest)
  have "c \<le> 255" using 3(3) by simp
  then have "\<not> is_high_surrogate c" unfolding is_high_surrogate_def by (simp add: word_le_def)
  with 3 show ?case by simp
qed simp_all

lemma decodeMessage_loop_step:
  assumes "length pre = i"
  shows "decodeMessage_loop (pre @ h # l # rest) i acc =
     (case decodePair (Some (uint h)) (Some (uint l)) of Inl e \<Rightarrow> Inl e
      | Inr c \<Rightarrow> decodeMessage_loop (pre @ h # l # rest) (i + 2) (acc @ [c]))"
  using assms by (subst decodeMessage_loop.simps) (simp add: charCodeAt_def nth_append)

lemma decodeMessage_loop_end: "decodeMessage_loop msg (length msg) acc = Inr acc"
  by (subst decodeMessage_loop.simps) simp

lemma decodeMessage_loop_encoded:
  assumes "\<forall>c\<in>set P. c \<le> 255"
  shows "decodeMessage_loop (pre @ concat (map two_units (map (\<lambda>c. [c]) P))) (length pre) acc = Inr (acc @ P)"
  using assms
proof (induction P arbitrary: pre acc)
  case Nil
  show ?case using decodeMessage_loop_end [of pre acc] by simp
next
  case (Cons c P)
  obtain h l where hl: "two_units [c] = [h, l]"
    using length_two_units [of "[c]"] by (auto simp: length_Suc_conv numeral_eq_Suc)
  have c: "c \<le> 255" using Cons.prems by simp
  have dec: "decodePair (Some (uint h)) (Some (uint l)) = Inr c"
    using decodePair_two_units [OF c] by (simp add: hl)
  have "decodeMessage_loop (pre @ h # l # concat (map two_units (map (\<lambda>c. [c]) P))) (length pre) acc
      = decodeMessage_loop (pre @ h # l # concat (map two_units (map (\<lambda>c. [c]) P))) (length pre + 2) (acc @ [c])"
    by (subst decodeMessage_loop_step) (simp_all add: dec)
  also have "\<dots> = Inr ((acc @ [c]) @ P)"
    using Cons.IH [of "pre @ [h, l]" "acc @ [c]"] Cons.prems by simp
  finally show ?case by (simp add: hl)
qed


lemma nth_concat_two_units:
  "k < length chs \<Longrightarrow>
     concat (map two_units chs) ! (2 * k) = two_units (chs ! k) ! 0 \<and>
     concat (map two_units chs) ! (2 * k + 1) = two_units (chs ! k) ! 1"
proof (induction chs arbitrary: k)
  case Nil
  then show ?case by simp
next
  case (Cons ch chs)
  show ?case
  proof (cases k)
    case 0
    then show ?thesis by (simp add: nth_append length_two_units)
  next
    case (Suc j)
    then have "j < length chs" using Cons.prems by simp
    from Cons.IH [OF this] show ?thesis
      by (simp add: Suc nth_append length_two_units)
  qed
qed

lemma length_concat_two_units: "length (concat (map two_units chs)) = 2 * length chs"
  by (induction chs) (simp_all add: length_two_units)

lemma two_units_nibbles:
  "\<exists>wh wl. encodeNibble (highNibble (Some (uint c))) = Inr wh \<and>
     encodeNibble (lowNibble (Some (uint c))) = Inr wl \<and>
     two_units [c] ! 0 = fromCharCode (reduce_pack 0 0 wh) \<and>
     two_units [c] ! 1 = fromCharCode (reduce_pack 0 0 wl)"
  by (rule encodeChar_units [of "[c]"]) (simp add: two_units_def charCodeAt_def)

text \<open>
  C2. For every string \<open>P\<close> whose characters all have codes in 0..255, \<open>encodeMessage P\<close>
  is a string \<open>E\<close> that \<open>decodeMessage\<close> takes back to \<open>P\<close>; \<open>E\<close> has two characters for
  each character of \<open>P\<close>: at \<open>2 * k\<close> the packed codeword of the high nibble of \<open>P ! k\<close>,
  at \<open>2 * k + 1\<close> that of its low nibble.
\<close>

theorem decodeMessage_encodeMessage:
  assumes "\<forall>c\<in>set P. c \<le> 255"
  shows "\<exists>E. encodeMessage P = Inr E \<and> decodeMessage E = Inr P \<and> length E = 2 * length P \<and>
     (\<forall>k<length P. \<exists>wh wl.
        encodeNibble (highNibble (Some (uint (P ! k)))) = Inr wh \<and>
        encodeNibble (lowNibble (Some (uint (P ! k)))) = Inr wl \<and>
        E ! (2 * k) = fromCharCode (reduce_pack 0 0 wh) \<and>
        E ! (2 * k + 1) = fromCharCode (reduce_pack 0 0 wl))"
proof -
  let ?E = "concat (map two_units (map (\<lambda>c. [c]) P))"
  have enc: "encodeMessage P = Inr ?E"
    by (simp add: encodeMessage_def string_iterator_8bit [OF assms] encodeMessage_loop_concat)
  have dec: "decodeMessage ?E = Inr P"
    using decodeMessage_loop_encoded [OF assms, of "[]" "[]"] by (simp add: decodeMessage_def)
  have len: "length ?E = 2 * length P"
    using length_concat_two_units [of "map (\<lambda>c. [c]) P"] by simp
  have units: "\<exists>wh wl.
        encodeNibble (highNibble (Some (uint (P ! k)))) = Inr wh \<and>
        encodeNibble (lowNibble (Some (uint (P ! k)))) = Inr wl \<and>
        ?E ! (2 * k) = fromCharCode (reduce_pack 0 0 wh) \<and>
        ?E ! (2 * k + 1) = fromCharCode (reduce_pack 0 0 wl)" if "k < length P" for k
  proof -
    have "k < length (map (\<lambda>c. [c]) P)" using that by simp
    from nth_concat_two_units [OF this] two_units_nibbles [of "P ! k"] that
    show ?thesis by simp
  qed
  from enc dec len units show ?thesis by blast
qed

theorem decodeMessage_encodeMessage_witness:
  "encodeMessage [104, 105] = Inr [102, 112, 102, 25] \<and>
   decodeMessage [102, 112, 102, 25] = Inr [104, 105]"
proof -
  have "\<forall>c\<in>set [104, 105 :: code_unit]. c \<le> 255" by simp
  from decodeMessage_encodeMessage [OF this]
  obtain E where E: "encodeMessage [104, 105] = Inr E" "decodeMessage E = Inr [104, 105]"
    by blast
  have "encodeMessage [104, 105] = Inr [102, 112, 102, 25]" by code_simp
  with E show ?thesis by simp
qed

text \<open>
  C10. For every input string, \<open>encodeMessage\<close> returns a string every code unit of which
  lies in 0..127. The codes of these units are the symbol values that \<open>encrypt_message\<close>
  passes to \<open>encrypt_char\<close> for the encoded message (\<open>char_codes\<close>), so each is below 128,
  and below the modulus \<open>n\<close> whenever \<open>n\<close> exceeds 127.
\<close>

theorem encodeMessage_seven_bit:
  "\<exists>E. encodeMessage msg = Inr E \<and>
     (\<forall>u\<in>set E. uint u \<le> 127) \<and>
     (\<forall>v\<in>set (char_codes E). 0 \<le> v \<and> v < 128 \<and> (127 < n \<longrightarrow> v < n))"
proof -
  let ?E = "concat (map two_units (string_iterator msg))"
  have enc: "encodeMessage msg = Inr ?E"
    by (simp add: encodeMessage_def encodeMessage_loop_concat)
  have "uint u \<le> 127" if "u \<in> set ?E" for u
  proof -
    from that obtain ch where "u \<in> set (two_units ch)" by auto
    then have "u \<le> 127" by (rule two_units_ascii)
    then have "uint u \<le> uint (127 :: code_unit)" by (simp only: word_le_def)
    then show ?thesis by simp
  qed
  then have units: "\<forall>u\<in>set ?E. uint u \<le> 127" by blast
  then have "\<forall>v\<in>set (char_codes ?E). 0 \<le> v \<and> v < 128 \<and> (127 < n \<longrightarrow> v < n)"
    unfolding char_codes_def by fastforce
  with enc units show ?thesis by blast
qed

theorem encodeMessage_seven_bit_witness:
  "encodeMessage [0xD83D, 0xDE00, 0xFFFF] = Inr [67, 85, 127, 127] \<and>
   char_codes [67, 85, 127, 127] = [67, 85, 127, 127] \<and>
   list_all (\<lambda>v. 0 \<le> v \<and> v < 128 \<and> v < 143) [67, 85, 127, 127 :: int]"
proof -
  from encodeMessage_seven_bit [of "[0xD83D, 0xDE00, 0xFFFF]" 143]
  obtain E where E: "encodeMessage [0xD83D, 0xDE00, 0xFFFF] = Inr E"
    "\<forall>v\<in>set (char_codes E). 0 \<le> v \<and> v < 128 \<and> (127 < (143::int) \<longrightarrow> v < 143)"
    by blast
  have enc: "encodeMessage [0xD83D, 0xDE00, 0xFFFF] = Inr [67, 85, 127, 127]" by code_simp
  have codes: "char_codes [67, 85, 127, 127] = [67, 85, 127, 127]"
    by (simp add: char_codes_def)
  from E enc have "E = [67, 85, 127, 127]" by simp
  with E(2) codes
  have "list_all (\<lambda>v. 0 \<le> v \<and> v < 128 \<and> v < 143) [67, 85, 127, 127 :: int]"
    unfolding list_all_iff by simp
  with enc codes show ?thesis by simp
qed

section \<open>Hamming(7,4): inputs of odd length\<close>


lemma decodeNibble_length7: "length w = 7 \<Longrightarrow> \<exists>d. decodeNibble w = Inr d"
  by (simp add: decodeNibble_def Let_def)

lemma decodePair_total: "\<exists>c. decodePair highCode lowCode = Inr c"
proof -
  obtain dh where dh: "decodeNibble (map (shr_and1 highCode) [6, 5, 4, 3, 2, 1, 0]) = Inr dh"
    using decodeNibble_length7 [of "map (shr_and1 highCode) [6, 5, 4, 3, 2, 1, 0]"] by auto
  obtain dl where dl: "decodeNibble (map (shr_and1 lowCode) [6, 5, 4, 3, 2, 1, 0]) = Inr dl"
    using decodeNibble_length7 [of "map (shr_and1 lowCode) [6, 5, 4, 3, 2, 1, 0]"] by auto
  show ?thesis unfolding decodePair_def Let_def dh dl by simp
qed

lemma decodePair_NaN: "decodePair highCode None = decodePair highCode (Some 0)"
  by (simp add: decodePair_def shr_and1_def)

lemma decodeMessage_loop_unfold:
  assumes "i < length msg" and "decodePair (charCodeAt msg i) (charCodeAt msg (i + 1)) = Inr c"
  shows "decodeMessage_loop msg i acc = decodeMessage_loop msg (i + 2) (acc @ [c])"
  by (subst decodeMessage_loop.simps) (simp only: assms if_True sum.case)

lemma decodeMessage_loop_total:
  "\<exists>s. decodeMessage_loop msg i acc = Inr s \<and> length s = length acc + (length msg - i + 1) div 2"
proof (induction msg i acc rule: decodeMessage_loop.induct)
  case (1 msg i decodedString)
  show ?case
  proof (cases "i < length msg")
    case True
    obtain c where c: "decodePair (charCodeAt msg i) (charCodeAt msg (i + 1)) = Inr c"
      using decodePair_total by blast
    from "1.IH" [OF True c] obtain s where
      s: "decodeMessage_loop msg (i + 2) (decodedString @ [c]) = Inr s"
         "length s = length (decodedString @ [c]) + (length msg - (i + 2) + 1) div 2"
      by blast
    have "decodeMessage_loop msg i decodedString = Inr s"
      using decodeMessage_loop_unfold [OF True c] s(1) by simp
    moreover have "length s = length decodedString + (length msg - i + 1) div 2"
      using s(2) True by (simp; arith)
    ultimately show ?thesis by blast
  next
    case False
    then show ?thesis by (subst decodeMessage_loop.simps) simp
  qed
qed

lemma decodeMessage_loop_padded:
  "odd (length msg) \<Longrightarrow> even i \<Longrightarrow>
     decodeMessage_loop (msg @ [0]) i acc = decodeMessage_loop msg i acc"
proof (induction msg i acc rule: decodeMessage_loop.induct)
  case (1 msg i decodedString)
  show ?case
  proof (cases "i < length msg")
    case True
    have hi: "charCodeAt (msg @ [0]) i = charCodeAt msg i"
      using True by (simp add: charCodeAt_def nth_append)
    have pair: "decodePair (charCodeAt (msg @ [0]) i) (charCodeAt (msg @ [0]) (i + 1))
        = decodePair (charCodeAt msg i) (charCodeAt msg (i + 1))"
    proof (cases "i + 1 < length msg")
      case True
      then show ?thesis by (simp add: charCodeAt_def nth_append)
    next
      case False
      with \<open>i < length msg\<close> have "i + 1 = length msg" by simp
      then have "charCodeAt (msg @ [0]) (i + 1) = Some 0" "charCodeAt msg (i + 1) = None"
        by (simp_all add: charCodeAt_def nth_append)
      then show ?thesis by (simp add: hi decodePair_NaN)
    qed
    obtain c where c: "decodePair (charCodeAt msg i) (charCodeAt msg (i + 1)) = Inr c"
      using decodePair_total by blast
    have lt: "i < length (msg @ [0])" using True by simp
    have c': "decodePair (charCodeAt (msg @ [0]) i) (charCodeAt (msg @ [0]) (i + 1)) = Inr c"
      using pair c by (rule trans)
    have "decodeMessage_loop (msg @ [0]) i decodedString
        = decodeMessage_loop (msg @ [0]) (i + 2) (decodedString @ [c])"
      using lt c' by (rule decodeMessage_loop_unfold)
    also have "\<dots> = decodeMessage_loop msg (i + 2) (decodedString @ [c])"
      using "1.IH" [OF True c] "1.prems" by simp
    also have "\<dots> = decodeMessage_loop msg i decodedString"
      using decodeMessage_loop_unfold [OF True c] by simp
    finally show ?thesis .
  next
    case False
    with "1.prems" have "length msg < i" by (cases "i = length msg") auto
    then show ?thesis
      by (subst decodeMessage_loop.simps, subst (2) decodeMessage_loop.simps) simp
  qed
qed

text \<open>
  C6 says that \<open>decodeMessage\<close> fails on every input of odd length. The code has no
  length check: on the one-character string of code 105 it returns a one-character string.
\<close>

theorem decodeMessage_odd_length_counterexample:
  "odd (length [105 :: code_unit]) \<and> decodeMessage [105] = Inr [16]"
  by code_simp

text \<open>
  C6, amended. \<open>decodeMessage\<close> checks no length and never fails: for every input it
  returns a string with one character for each started pair. On an input of odd length
  the missing last unit is read as \<open>NaN\<close>, all of whose bits are 0, so the result is that
  of decoding the input followed by one character of code 0.
\<close>

theorem decodeMessage_never_fails:
  "\<exists>s. decodeMessage msg = Inr s \<and> length s = (length msg + 1) div 2 \<and>
     (odd (length msg) \<longrightarrow> decodeMessage (msg @ [0]) = Inr s)"
proof -
  obtain s where s: "decodeMessage msg = Inr s" "length s = (length msg + 1) div 2"
    using decodeMessage_loop_total [of msg 0 "[]"] by (auto simp: decodeMessage_def)
  have "decodeMessage (msg @ [0]) = Inr s" if "odd (length msg)"
    using decodeMessage_loop_padded [OF that, of 0 "[]"] s(1) by (simp add: decodeMessage_def)
  with s show ?thesis by blast
qed

theorem decodeMessage_never_fails_witness:
  "decodeMessage [102, 112, 102] = Inr [104, 96] \<and> decodeMessage [102, 112, 102, 0] = Inr [104, 96]"
proof -
  from decodeMessage_never_fails [of "[102, 112, 102]"]
  obtain s where s: "decodeMessage [102, 112, 102] = Inr s"
    "odd (length [102, 112, 102 :: code_unit]) \<longrightarrow> decodeMessage ([102, 112, 102] @ [0]) = Inr s"
    by blast
  have "decodeMessage [102, 112, 102] = Inr [104, 96]" by code_simp
  with s show ?thesis by simp
qed

section \<open>The primality test\<close>

lemma js_rem_nonneg: "0 \<le> a \<Longrightarrow> 0 < b \<Longrightarrow> js_rem a b = a mod b"
  by (cases "a = 0") (simp_all add: js_rem_def)

lemma js_rem_dvd: "0 \<le> a \<Longrightarrow> 0 < b \<Longrightarrow> js_rem a b = 0 \<longleftrightarrow> b dvd a"
  by (simp add: js_rem_nonneg dvd_eq_mod_eq_0)

lemma prime_number_iff:
  "prime_number p \<longleftrightarrow> 1 < p \<and> no_divisor_below p p"
  unfolding prime_number_def no_divisor_below_def
proof (intro iffI conjI allI impI; (elim conjE)?)
  fix d assume "\<forall>d. 0 < d \<and> d dvd p \<longrightarrow> d = 1 \<or> d = p" "2 \<le> d" "d < p"
  then show "\<not> d dvd p" by force
next
  fix d assume p: "1 < p" and nd: "\<forall>d. 2 \<le> d \<and> d < p \<longrightarrow> \<not> d dvd p" and d: "0 < d" "d dvd p"
  have "d \<le> p" using d p by (intro zdvd_imp_le) simp_all
  show "d = 1 \<or> d = p"
  proof (rule ccontr)
    assume "\<not> (d = 1 \<or> d = p)"
    then have "2 \<le> d" "d < p" using d(1) \<open>d \<le> p\<close> by auto
    with nd d(2) show False by blast
  qed
qed simp_all

text \<open>If nothing below i divides num and i * i exceeds num, then num is prime.\<close>
lemma no_divisor_sqrt:
  assumes "1 < num" "no_divisor_below num i" "num < i * i" "0 \<le> i"
  shows "prime_number num"
  unfolding prime_number_iff
proof (intro conjI)
  show "1 < num" by fact
  show "no_divisor_below num num"
    unfolding no_divisor_below_def
  proof (intro allI impI notI; elim conjE)
    fix d assume d: "2 \<le> d" "d < num" "d dvd num"
    then obtain k where k: "num = d * k" by (auto simp: dvd_def)
    have kpos: "0 < k" using k d assms(1) by (simp add: zero_less_mult_iff)
    have "k \<noteq> 1" using k d by auto
    with kpos have k2: "2 \<le> k" by simp
    have kd: "k dvd num" using k by simp
    have "i \<le> d" using assms(2) d unfolding no_divisor_below_def by force
    moreover have "i \<le> k" using assms(2) k2 kd unfolding no_divisor_below_def by force
    ultimately have "i * i \<le> d * k" using assms(4) by (intro mult_mono) simp_all
    with k assms(3) show False by simp
  qed
qed

lemma no_divisor_step:
  assumes nd: "no_divisor_below num i" and i: "i mod 6 = 5" 
    and n2: "\<not> 2 dvd num" and n3: "\<not> 3 dvd num"
    and ni: "\<not> i dvd num" and ni2: "\<not> (i + 2) dvd num"
  shows "no_divisor_below num (i + 6)"
  unfolding no_divisor_below_def
proof (intro allI impI notI; elim conjE)
  fix d assume d: "2 \<le> d" "d < i + 6" "d dvd num"
  have "i \<le> d" using nd d unfolding no_divisor_below_def by force
  with d consider "d = i" | "d = i + 1" | "d = i + 2" | "d = i + 3" | "d = i + 4" | "d = i + 5"
    by force
  then show False
  proof cases
    case 2
    have "2 dvd d" using i unfolding 2 by presburger
    then show False using d(3) n2 by (meson dvd_trans)
  next
    case 4
    have "2 dvd d" using i unfolding 4 by presburger
    then show False using d(3) n2 by (meson dvd_trans)
  next
    case 5
    have "3 dvd d" using i unfolding 5 by presburger
    then show False using d(3) n3 by (meson dvd_trans)
  next
    case 6
    have "2 dvd d" using i unfolding 6 by presburger
    then show False using d(3) n2 by (meson dvd_trans)
  qed (use ni ni2 d in auto)
qed

lemma isPrime_loop_correct:
  assumes "3 < num" "5 \<le> i" "i mod 6 = 5" "\<not> 2 dvd num" "\<not> 3 dvd num" "no_divisor_below num i"
  shows "isPrime_loop num i \<longleftrightarrow> prime_number num"
  using assms
proof (induction num i rule: isPrime_loop.induct)
  case (1 num i)
  show ?case
  proof (cases "i * i \<le> num")
    case False
    then have "prime_number num" using 1(2,3,7) by (intro no_divisor_sqrt[of num i]) simp_all
    with False show ?thesis by (subst isPrime_loop.simps) simp
  next
    case True
    have ipos: "0 < i" "0 < i + 2" using 1(3) by simp_all
    have npos: "0 \<le> num" using 1(2) by simp
    have "i * 5 \<le> i * i" using 1(3) by (intro mult_left_mono) simp_all
    with True have lt: "i < num" "i + 2 < num" using 1(3) by linarith+
    show ?thesis
    proof (cases "i dvd num \<or> (i + 2) dvd num")
      case True
      then obtain d where d: "d dvd num" "2 \<le> d" "d < num" using lt 1(3) by force
      then have "\<not> prime_number num" unfolding prime_number_iff no_divisor_below_def by blast
      with True \<open>i * i \<le> num\<close> show ?thesis
        by (subst isPrime_loop.simps) (simp add: js_rem_dvd[OF npos ipos(1)] js_rem_dvd[OF npos ipos(2)])
    next
      case False
      then have nd: "\<not> i dvd num" "\<not> (i + 2) dvd num" by simp_all
      have step: "no_divisor_below num (i + 6)"
        using 1(7) 1(4) 1(5) 1(6) nd by (rule no_divisor_step)
      have rems: "\<not> (js_rem num i = 0 \<or> js_rem num (i + 2) = 0)"
        using nd by (simp add: js_rem_dvd[OF npos ipos(1)] js_rem_dvd[OF npos ipos(2)])
      have a: "5 \<le> i + 6" using 1(3) by simp
      have b: "(i + 6) mod 6 = 5" using 1(4) by presburger
      have "isPrime_loop num (i + 6) \<longleftrightarrow> prime_number num"
        by (rule 1(1) [OF True rems 1(2) a b 1(5) 1(6) step])
      with True rems show ?thesis by (subst isPrime_loop.simps) simp
    qed
  qed
qed

lemma isPrime_correct: "isPrime num \<longleftrightarrow> prime_number num"
proof -
  consider "num \<le> 1" | "num = 2" | "num = 3" | "3 < num" by force
  then show ?thesis
  proof cases
    case 1
    then show ?thesis by (simp add: isPrime_def prime_number_def)
  next
    case 2
    have "no_divisor_below 2 2" unfolding no_divisor_below_def by auto
    then show ?thesis unfolding 2 by (simp add: isPrime_def prime_number_iff)
  next
    case 3
    have "no_divisor_below 3 3" unfolding no_divisor_below_def 
    proof (intro allI impI notI; elim conjE)
      fix d :: int assume "2 \<le> d" "d < 3" "d dvd 3"
      then have "d = 2" by simp
      with \<open>d dvd 3\<close> show False by simp
    qed
    then show ?thesis unfolding 3 by (simp add: isPrime_def prime_number_iff)
  next
    case 4
    then have npos: "0 \<le> num" by simp
    show ?thesis
    proof (cases "2 dvd num \<or> 3 dvd num")
      case True
      then obtain d where "d dvd num" "2 \<le> d" "d < num" using 4 by force
      then have "\<not> prime_number num" unfolding prime_number_iff no_divisor_below_def by blast
      with True 4 show ?thesis 
        by (simp add: isPrime_def js_rem_dvd[OF npos])
    next
      case False
      have nd5: "no_divisor_below num 5" unfolding no_divisor_below_def
      proof (intro allI impI notI; elim conjE)
        fix d :: int assume d: "2 \<le> d" "d < 5" "d dvd num"
        then consider "d = 2" | "d = 3" | "d = 4" by force
        then show False
        proof cases
          case 3
          have "(2::int) dvd 4" by simp
          from this d(3) [unfolded 3] have "2 dvd num" by (rule dvd_trans)
          with False show False by simp
        qed (use False d in auto)
      qed
      have "isPrime_loop num 5 \<longleftrightarrow> prime_number num"
        using 4 False nd5 by (intro isPrime_loop_correct) simp_all
      with False 4 show ?thesis by (simp add: isPrime_def js_rem_dvd[OF npos])
    qed
  qed
qed

text \<open>
  C7. \<open>isPrime num\<close> is true exactly when \<open>num\<close> is a prime number, for every integer
  \<open>num\<close> (the non-negative ones in particular), and it is false for every \<open>num\<close> up to 1.
\<close>

theorem isPrime_iff_prime:
  "(isPrime num \<longleftrightarrow> prime_number num) \<and> (num \<le> 1 \<longrightarrow> \<not> isPrime num)"
proof
  show "isPrime num \<longleftrightarrow> prime_number num" by (rule isPrime_correct)
  show "num \<le> 1 \<longrightarrow> \<not> isPrime num" by (simp add: isPrime_def)
qed

theorem isPrime_iff_prime_witness:
  "isPrime 97 \<and> prime_number 97 \<and> \<not> isPrime 91 \<and> \<not> prime_number 91 \<and> \<not> isPrime 1"
proof -
  have "isPrime 97" and "\<not> isPrime 91" by code_simp+
  moreover have "(1::int) \<le> 1 \<longrightarrow> \<not> isPrime 1"
    using isPrime_iff_prime [of 1] by (rule conjunct2)
  then have "\<not> isPrime 1" by simp
  ultimately show ?thesis using isPrime_iff_prime [of 97] isPrime_iff_prime [of 91] by simp
qed

section \<open>Fermat's little theorem and the RSA identity\<close>

lemma prime_number_divisor:
  assumes p: "prime_number (int p)" and d: "d dvd p" "0 < d"
  shows "d = 1 \<or> d = p"
proof -
  have "0 < int d \<and> int d dvd int p" using d by simp
  moreover have "\<forall>d. 0 < d \<and> d dvd int p \<longrightarrow> d = 1 \<or> d = int p"
    using p unfolding prime_number_def by (rule conjunct2)
  ultimately have "int d = 1 \<or> int d = int p" by blast
  then show ?thesis by simp
qed

lemma prime_number_coprime:
  assumes p: "prime_number (int p)" and k: "0 < k" "k < p"
  shows "coprime p k"
proof -
  let ?g = "gcd p k"
  have "0 < ?g" using k by simp
  moreover have "?g dvd p" by simp
  ultimately have "?g = 1 \<or> ?g = p"
    using p by (intro prime_number_divisor)
  moreover have "?g \<noteq> p"
  proof
    assume "?g = p"
    then have "p dvd k" by (metis gcd_dvd2)
    then have "p \<le> k" using k(1) by (rule dvd_imp_le)
    with k(2) show False by simp
  qed
  ultimately have "?g = 1" by simp
  then show ?thesis by (simp add: coprime_iff_gcd_eq_1)
qed

lemma prime_dvd_binomial:
  assumes p: "prime_number (int p)" and k: "0 < k" "k < p"
  shows "p dvd (p choose k)"
proof -
  obtain n where n: "p = Suc n" using k by (cases p) simp_all
  obtain j where j: "k = Suc j" using k by (cases k) simp_all
  have "k * (p choose k) = p * (n choose j)"
    unfolding n j by (rule Suc_times_binomial)
  then have "p dvd k * (p choose k)" by (simp only: dvd_triv_left)
  moreover have "coprime p k" using p k by (rule prime_number_coprime)
  ultimately show ?thesis by (simp add: coprime_dvd_mult_right_iff)
qed

lemma fermat_step:
  fixes a :: nat
  assumes p: "prime_number (int p)"
  shows "(a + 1) ^ p mod p = (a ^ p + 1) mod p"
proof -
  obtain n where n: "p = Suc n" using p unfolding prime_number_def by (cases p) simp_all
  have n0: "0 < n" using p unfolding prime_number_def n by simp
  let ?f = "\<lambda>k. (p choose k) * a ^ k"
  have "(a + 1) ^ p = (\<Sum>k\<le>p. ?f k)"
    using binomial_ring [of a 1 p] by simp
  also have "\<dots> = (\<Sum>k\<le>n. ?f k) + ?f p" unfolding n by simp
  also have "(\<Sum>k\<le>n. ?f k) = (\<Sum>k\<in>{1..n}. ?f k) + ?f 0"
    by (simp add: atMost_atLeast0 sum.atLeast_Suc_atMost)
  finally have eq: "(a + 1) ^ p = (\<Sum>k\<in>{1..n}. ?f k) + (a ^ p + 1)" by simp
  have "p dvd (\<Sum>k\<in>{1..n}. ?f k)"
  proof (rule dvd_sum)
    fix k assume "k \<in> {1..n}"
    then have "0 < k" "k < p" unfolding n by simp_all
    with p have "p dvd (p choose k)" by (rule prime_dvd_binomial)
    then show "p dvd ?f k" by simp
  qed
  then show ?thesis unfolding eq by (metis mod_add_self1 dvd_eq_mod_eq_0 mod_add_left_eq add_0)
qed

lemma fermat_little:
  fixes a :: nat
  assumes p: "prime_number (int p)"
  shows "a ^ p mod p = a mod p"
proof (induction a)
  case 0
  have "0 < p" using p unfolding prime_number_def by simp
  then show ?case by (simp add: zero_power)
next
  case (Suc a)
  have "Suc a ^ p mod p = (a ^ p + 1) mod p"
    using fermat_step [OF p, of a] by simp
  also have "\<dots> = (a ^ p mod p + 1) mod p" by (simp only: mod_add_left_eq)
  also have "\<dots> = (a mod p + 1) mod p" by (simp only: Suc.IH)
  also have "\<dots> = (a + 1) mod p" by (simp only: mod_add_left_eq)
  also have "\<dots> = Suc a mod p" by simp
  finally show ?case .
qed

lemma power_cycle:
  fixes a :: nat
  assumes p: "prime_number (int p)"
  shows "a ^ (1 + j * (p - 1)) mod p = a mod p"
proof (induction j)
  case 0
  show ?case by simp
next
  case (Suc j)
  have p1: "1 \<le> p" using p unfolding prime_number_def by simp
  then have "1 + Suc j * (p - 1) = p + j * (p - 1)" by simp
  then have "a ^ (1 + Suc j * (p - 1)) = a ^ p * a ^ (j * (p - 1))"
    by (simp only: power_add)
  then have "a ^ (1 + Suc j * (p - 1)) mod p = (a ^ p mod p) * a ^ (j * (p - 1)) mod p"
    by (simp add: mod_mult_left_eq)
  also have "\<dots> = a * a ^ (j * (p - 1)) mod p"
    by (simp only: fermat_little [OF p] mod_mult_left_eq)
  also have "\<dots> = a ^ (1 + j * (p - 1)) mod p" by simp
  finally show ?case using Suc.IH by simp
qed

lemma distinct_primes_coprime:
  assumes p: "prime_number (int p)" and q: "prime_number (int q)" and ne: "p \<noteq> q"
  shows "coprime p q"
proof -
  let ?g = "gcd p q"
  have q0: "0 < q" and p0: "0 < p" using p q unfolding prime_number_def by simp_all
  then have "0 < ?g" by simp
  have "?g = 1 \<or> ?g = p"
    using p \<open>0 < ?g\<close> by (intro prime_number_divisor) simp_all
  moreover have "?g = 1 \<or> ?g = q"
    using q \<open>0 < ?g\<close> by (intro prime_number_divisor) simp_all
  ultimately have "?g = 1" using ne by auto
  then show ?thesis by (simp add: coprime_iff_gcd_eq_1)
qed

lemma rsa_nat:
  assumes p: "prime_number (int p)" and q: "prime_number (int q)" and ne: "p \<noteq> q"
    and ed: "e * d = 1 + k * ((p - 1) * (q - 1))" and v: "v < p * q"
  shows "(v ^ e mod (p * q)) ^ d mod (p * q) = v"
proof -
  have "(v ^ e mod (p * q)) ^ d mod (p * q) = (v ^ e) ^ d mod (p * q)"
    by (simp add: power_mod)
  also have "(v ^ e) ^ d = v ^ (e * d)" by (simp add: power_mult)
  finally have lhs: "(v ^ e mod (p * q)) ^ d mod (p * q) = v ^ (e * d) mod (p * q)" .
  have "e * d = 1 + (k * (q - 1)) * (p - 1)" using ed by (simp add: mult_ac)
  then have mp: "v ^ (e * d) mod p = v mod p" using power_cycle [OF p] by simp
  have "e * d = 1 + (k * (p - 1)) * (q - 1)" using ed by (simp add: mult_ac)
  then have mq: "v ^ (e * d) mod q = v mod q" using power_cycle [OF q] by simp
  have ge: "v \<le> v ^ (e * d)"
  proof (cases "v = 0")
    case True
    then show ?thesis by simp
  next
    case False
    have "v ^ 1 \<le> v ^ (e * d)" using False ed by (intro power_increasing) simp_all
    then show ?thesis by simp
  qed
  have "p dvd v ^ (e * d) - v" using mp ge by (simp add: mod_eq_dvd_iff_nat)
  moreover have "q dvd v ^ (e * d) - v" using mq ge by (simp add: mod_eq_dvd_iff_nat)
  moreover have "coprime p q" using p q ne by (rule distinct_primes_coprime)
  ultimately have "p * q dvd v ^ (e * d) - v" by (rule divides_mult)
  then have "v ^ (e * d) mod (p * q) = v mod (p * q)" using ge by (simp add: mod_eq_dvd_iff_nat)
  with v lhs show ?thesis by simp
qed

section \<open>Key generation\<close>

lemma js_quot_nonneg: "0 \<le> a \<Longrightarrow> 0 < b \<Longrightarrow> js_quot a b = a div b"
  by (cases "a = 0") (simp_all add: js_quot_def)

lemma gcd_bigint_gcd: "0 \<le> a \<Longrightarrow> 0 \<le> b \<Longrightarrow> gcd_bigint a b = gcd a b"
proof (induction a b rule: gcd_bigint.induct)
  case (1 a b)
  show ?case
  proof (cases "b = 0")
    case True
    with "1.prems" show ?thesis by (subst gcd_bigint.simps) simp
  next
    case False
    with "1.prems" have b: "0 < b" by simp
    have r: "js_rem a b = a mod b" using "1.prems"(1) b by (rule js_rem_nonneg)
    have "0 \<le> a mod b" using b by simp
    with "1.IH" [OF False] "1.prems"(2) have "gcd_bigint b (a mod b) = gcd b (a mod b)"
      by (simp add: r)
    also have "\<dots> = gcd a b" by (rule gcd_red_int [symmetric])
    finally show ?thesis using False by (subst gcd_bigint.simps) (simp add: r)
  qed
qed

lemma select_e_loop_Some:
  "select_e_loop phi_n e0 = Some e \<Longrightarrow> e0 \<le> e \<and> e < phi_n \<and> gcd_bigint e phi_n = 1"
proof (induction phi_n e0 rule: select_e_loop.induct)
  case (1 phi_n e0)
  from "1.prems" have lt: "e0 < phi_n"
    by (subst (asm) select_e_loop.simps) (simp split: if_splits)
  show ?case
  proof (cases "gcd_bigint e0 phi_n = 1")
    case True
    with "1.prems" lt have "e = e0" by (subst (asm) select_e_loop.simps) simp
    with True lt show ?thesis by simp
  next
    case False
    with "1.prems" lt have "select_e_loop phi_n (e0 + 1) = Some e"
      by (subst (asm) select_e_loop.simps) simp
    from "1.IH" [OF lt False this] show ?thesis by simp
  qed
qed

lemma select_e_Some:
  assumes "select_e phi_n = Some e"
  shows "2 \<le> e" and "e < phi_n" and "coprime e phi_n"
proof -
  from assms have *: "2 \<le> e \<and> e < phi_n \<and> gcd_bigint e phi_n = 1"
    unfolding select_e_def by (rule select_e_loop_Some)
  then show "2 \<le> e" and "e < phi_n" by simp_all
  with * have "gcd e phi_n = 1" by (simp add: gcd_bigint_gcd)
  then show "coprime e phi_n" by (simp add: coprime_iff_gcd_eq_1)
qed

lemma inverse_inv_step:
  assumes inv: "inverse_inv e phi a m x0 x1" and a: "1 < a" and m: "m \<noteq> 0"
  shows "inverse_inv e phi m (a mod m) (x1 - (a div m) * x0) x0"
proof -
  from inv have a1: "1 \<le> a" and m0: "0 \<le> m" and cop: "coprime a m"
    and d1: "phi dvd (x1 * e - a)" and d0: "phi dvd (x0 * e - m)" and b1: "\<bar>x1\<bar> < phi"
    and sg: "(x0 \<le> 0 \<and> 0 \<le> x1 \<and> x1 * m - x0 * a = phi) \<or>
       (0 \<le> x0 \<and> x1 \<le> 0 \<and> x0 * a - x1 * m = phi)"
    unfolding inverse_inv_def by simp_all
  define q where "q = a div m"
  define r where "r = a mod m"
  have mpos: "0 < m" using m0 m by simp
  have qr: "a = q * m + r" unfolding q_def r_def by simp
  have q0: "0 \<le> q" unfolding q_def using a1 mpos by (simp add: pos_imp_zdiv_nonneg_iff)
  have r0: "0 \<le> r" unfolding r_def using mpos by simp
  have phi0: "0 < phi" using b1 by simp
  have c1: "1 \<le> m" using mpos by simp
  have "gcd m r = gcd a m" unfolding r_def by (rule gcd_red_int [symmetric])
  with cop have c2: "coprime m r" by (simp add: coprime_iff_gcd_eq_1)
  have "(x1 - q * x0) * e - r = (x1 * e - a) - q * (x0 * e - m)"
    unfolding qr by (simp add: algebra_simps)
  then have c3: "phi dvd ((x1 - q * x0) * e - r)"
    using d1 d0 by simp
  have c4: "\<bar>x0\<bar> < phi"
  proof -
    from sg have "\<bar>x0\<bar> * a \<le> phi"
    proof
      assume A: "x0 \<le> 0 \<and> 0 \<le> x1 \<and> x1 * m - x0 * a = phi"
      then have "0 \<le> x1 * m" using m0 by simp
      with A have "- x0 * a \<le> phi" by simp
      moreover have "\<bar>x0\<bar> = - x0" using A by simp
      ultimately show ?thesis by simp
    next
      assume B: "0 \<le> x0 \<and> x1 \<le> 0 \<and> x0 * a - x1 * m = phi"
      then have "x1 * m \<le> 0" using m0 by (simp add: mult_nonpos_nonneg)
      with B have "x0 * a \<le> phi" by simp
      moreover have "\<bar>x0\<bar> = x0" using B by simp
      ultimately show ?thesis by simp
    qed
    moreover have "\<bar>x0\<bar> * 2 \<le> \<bar>x0\<bar> * a" using a by (intro mult_left_mono) simp_all
    ultimately have "\<bar>x0\<bar> * 2 \<le> phi" by simp
    with phi0 show ?thesis by simp
  qed
  have c5: "(x1 - q * x0 \<le> 0 \<and> 0 \<le> x0 \<and> x0 * r - (x1 - q * x0) * m = phi) \<or>
       (0 \<le> x1 - q * x0 \<and> x0 \<le> 0 \<and> (x1 - q * x0) * m - x0 * r = phi)"
    using sg
  proof
    assume A: "x0 \<le> 0 \<and> 0 \<le> x1 \<and> x1 * m - x0 * a = phi"
    then have "q * x0 \<le> 0" using q0 by (simp add: mult_nonneg_nonpos)
    with A have "0 \<le> x1 - q * x0" by simp
    moreover have "(x1 - q * x0) * m - x0 * r = x1 * m - x0 * a"
      unfolding qr by (simp add: algebra_simps)
    ultimately show ?thesis using A by simp
  next
    assume B: "0 \<le> x0 \<and> x1 \<le> 0 \<and> x0 * a - x1 * m = phi"
    then have "0 \<le> q * x0" using q0 by simp
    with B have "x1 - q * x0 \<le> 0" by simp
    moreover have "x0 * r - (x1 - q * x0) * m = x0 * a - x1 * m"
      unfolding qr by (simp add: algebra_simps)
    ultimately show ?thesis using B by simp
  qed
  show ?thesis
    unfolding inverse_inv_def q_def [symmetric] r_def [symmetric]
    using c1 r0 c2 c3 d0 c4 c5 by simp
qed

lemma mod_inverse_loop_inv:
  assumes "inverse_inv e phi a m x0 x1"
  shows "\<exists>x. mod_inverse_loop a m x0 x1 = Some x \<and> phi dvd (x * e - 1) \<and> \<bar>x\<bar> < phi"
  using assms
proof (induction a m x0 x1 rule: mod_inverse_loop.induct)
  case (1 a m x0 x1)
  show ?case
  proof (cases "1 < a")
    case False
    with "1.prems" have "a = 1" unfolding inverse_inv_def by simp
    with "1.prems" have "phi dvd (x1 * e - 1)" "\<bar>x1\<bar> < phi" unfolding inverse_inv_def by simp_all
    with False show ?thesis by (subst mod_inverse_loop.simps) simp
  next
    case True
    have m: "m \<noteq> 0"
    proof
      assume "m = 0"
      with "1.prems" have "coprime a 0" unfolding inverse_inv_def by simp
      then have "\<bar>a\<bar> = 1" by simp
      with True show False by simp
    qed
    from "1.prems" have a0: "0 \<le> a" and mpos: "0 < m" using m unfolding inverse_inv_def by simp_all
    have q: "js_quot a m = a div m" using a0 mpos by (rule js_quot_nonneg)
    have r: "js_rem a m = a mod m" using a0 mpos by (rule js_rem_nonneg)
    have "inverse_inv e phi m (js_rem a m) (x1 - js_quot a m * x0) x0"
      unfolding q r using "1.prems" True m by (rule inverse_inv_step)
    from "1.IH" [OF True m refl this]
    show ?thesis using True m by (subst mod_inverse_loop.simps) (simp add: Let_def)
  qed
qed

lemma mod_inverse_correct:
  assumes e: "2 \<le> e" "e < phi" and cop: "coprime e phi"
  shows "\<exists>d. mod_inverse e phi = Some d \<and> 0 \<le> d \<and> d < phi \<and> phi dvd (d * e - 1)"
proof -
  have "inverse_inv e phi e phi 0 1"
    unfolding inverse_inv_def using e cop by simp
  then obtain x where x: "mod_inverse_loop e phi 0 1 = Some x" "phi dvd (x * e - 1)" "\<bar>x\<bar> < phi"
    using mod_inverse_loop_inv by blast
  let ?d = "if x < 0 then x + phi else x"
  have eq: "(x + phi) * e - 1 = (x * e - 1) + phi * e" by (simp add: algebra_simps)
  have "phi dvd (x * e - 1) + phi * e" using x(2) by (rule dvd_add) simp
  then have "phi dvd ((x + phi) * e - 1)" by (simp only: eq)
  with x(2) have "phi dvd (?d * e - 1)" by simp
  moreover have "0 \<le> ?d" "?d < phi" using x(3) by auto
  moreover have "mod_inverse e phi = Some ?d"
    using e x(1) by (simp add: mod_inverse_def)
  ultimately show ?thesis by blast
qed

lemma generate_rsa_keys_Inr:
  "generate_rsa_keys primeRange draws = Some (Inr (keys, rest)) \<Longrightarrow>
     \<exists>p q e d. isPrime p \<and> isPrime q \<and> p \<noteq> q \<and>
       select_e ((p - 1) * (q - 1)) = Some e \<and> mod_inverse e ((p - 1) * (q - 1)) = Some d \<and>
       keys = \<lparr>public_key = (e, p * q), private_key = (d, p * q)\<rparr>"
proof (induction primeRange draws rule: generate_rsa_keys.induct)
  case (1 primeRange draws)
  note run = "1.prems" [unfolded generate_rsa_keys.simps [of primeRange draws]]
  from run obtain p draws1 where
    g1: "generatePrime primeRange 1000 draws = Some (Inr (p, draws1))"
    by (auto split: option.splits sum.splits)
  from run g1 obtain q0 draws2 where
    g2: "generatePrime primeRange 1000 draws1 = Some (Inr (q0, draws2))"
    by (auto split: option.splits sum.splits)
  from run g1 g2 obtain q draws3 where
    g3: "redraw_q primeRange p q0 draws2 = Some (Inr (q, draws3))"
    by (auto split: option.splits sum.splits)
  have p: "isPrime p" using generatePrime_Inr [OF g1] by simp
  have "isPrime q0" using generatePrime_Inr [OF g2] by simp
  with redraw_q_Inr [OF g3] have q: "isPrime q" and ne: "p \<noteq> q" by simp_all
  show ?case
  proof (cases "select_e ((p - 1) * (q - 1))")
    case None
    with run g1 g2 g3
    have "generate_rsa_keys (primeRange + 500) draws3 = Some (Inr (keys, rest))"
      by (simp add: Let_def)
    with "1.IH"(1) [OF g1 refl refl g2 refl refl g3 refl refl refl refl None]
    show ?thesis .
  next
    case (Some e)
    show ?thesis
    proof (cases "mod_inverse e ((p - 1) * (q - 1))")
      case None
      with run g1 g2 g3 Some
      have "generate_rsa_keys (primeRange + 500) draws3 = Some (Inr (keys, rest))"
        by (simp add: Let_def)
      with "1.IH"(2) [OF g1 refl refl g2 refl refl g3 refl refl refl refl Some None]
      show ?thesis .
    next
      case d: (Some d)
      with run g1 g2 g3 Some
      have "keys = \<lparr>public_key = (e, p * q), private_key = (d, p * q)\<rparr>"
        by (simp add: Let_def)
      with p q ne Some d show ?thesis by blast
    qed
  qed
qed

lemma js_rem_of_nat: "0 < N \<Longrightarrow> js_rem (int a) (int N) = int (a mod N)"
  by (simp add: js_rem_nonneg zmod_int)

lemma rsa_int:
  assumes p: "prime_number p" and q: "prime_number q" and ne: "p \<noteq> q"
    and e: "0 \<le> e" and d: "0 \<le> d" and ed: "(p - 1) * (q - 1) dvd (d * e - 1)"
    and v: "0 \<le> v" "v < p * q"
  shows "js_rem (js_rem (v ^ nat e) (p * q) ^ nat d) (p * q) = v"
proof -
  have p1: "1 < p" and q1: "1 < q" using p q unfolding prime_number_def by simp_all
  define P Q E D V where "P = nat p" and "Q = nat q" and "E = nat e" and "D = nat d" and "V = nat v"
  have ip: "p = int P" and iq: "q = int Q" and ie: "e = int E" and id: "d = int D" and iv: "v = int V"
    unfolding P_def Q_def E_def D_def V_def using p1 q1 e d v by simp_all
  have P1: "1 < P" and Q1: "1 < Q" using p1 q1 unfolding P_def Q_def by simp_all
  have phi: "(p - 1) * (q - 1) = int ((P - 1) * (Q - 1))"
    unfolding ip iq using P1 Q1 by (simp add: of_nat_diff)
  have n: "p * q = int (P * Q)" unfolding ip iq by simp
  have npos: "0 < P * Q" using P1 Q1 by simp
  have phipos: "0 < (P - 1) * (Q - 1)" using P1 Q1 by simp
  have phi2: "2 \<le> (p - 1) * (q - 1)"
  proof (cases "p < q")
    case True
    then have "1 * 2 \<le> (p - 1) * (q - 1)" using p1 by (intro mult_mono) simp_all
    then show ?thesis by simp
  next
    case False
    with ne have "q < p" by simp
    then have "2 * 1 \<le> (p - 1) * (q - 1)" using q1 by (intro mult_mono) simp_all
    then show ?thesis by simp
  qed
  have de1: "1 \<le> d * e"
  proof (rule ccontr)
    assume "\<not> 1 \<le> d * e"
    moreover have "0 \<le> d * e" using e d by simp
    ultimately have "d * e = 0" by linarith
    with ed have "(p - 1) * (q - 1) dvd - 1" by simp
    then have "(p - 1) * (q - 1) dvd 1" by (simp only: dvd_minus_iff)
    then have "\<bar>(p - 1) * (q - 1)\<bar> = 1" by (simp only: zdvd1_eq)
    with phi2 show False by simp
  qed
  from ed obtain k where dek: "d * e - 1 = (p - 1) * (q - 1) * k" by (auto simp: dvd_def)
  have k0: "0 \<le> k"
  proof (rule ccontr)
    assume "\<not> 0 \<le> k"
    then have "k < 0" by simp
    moreover have "0 < (p - 1) * (q - 1)" using phi2 by simp
    ultimately have "(p - 1) * (q - 1) * k < 0" by (simp only: mult_pos_neg)
    with dek de1 show False by simp
  qed
  have "int (E * D) = e * d" by (simp add: ie id)
  also have "\<dots> = 1 + k * ((p - 1) * (q - 1))" using dek by (simp add: mult.commute)
  also have "\<dots> = 1 + int (nat k) * int ((P - 1) * (Q - 1))"
    using k0 by (simp only: phi nat_0_le)
  also have "\<dots> = int (1 + nat k * ((P - 1) * (Q - 1)))"
    by (simp only: of_nat_add of_nat_mult of_nat_1)
  finally have k: "E * D = 1 + nat k * ((P - 1) * (Q - 1))" by (simp only: of_nat_eq_iff)
  have V: "V < P * Q" using v(2) unfolding iv n by (simp only: of_nat_less_iff)
  have nat: "(V ^ E mod (P * Q)) ^ D mod (P * Q) = V"
    using p q _ k V unfolding ip iq
  proof (rule rsa_nat)
    show "P \<noteq> Q" using ne ip iq by simp
  qed
  have pw: "js_rem (int x ^ nat y) (p * q) = int (x ^ nat y mod (P * Q))" for x y
  proof -
    have "js_rem (int x ^ nat y) (p * q) = js_rem (int (x ^ nat y)) (int (P * Q))"
      by (simp only: n of_nat_power)
    also have "\<dots> = int (x ^ nat y mod (P * Q))" using npos by (rule js_rem_of_nat)
    finally show ?thesis .
  qed
  have "js_rem (js_rem (v ^ nat e) (p * q) ^ nat d) (p * q)
      = js_rem (js_rem (int V ^ nat e) (p * q) ^ nat d) (p * q)" by (simp only: iv [symmetric])
  also have "\<dots> = int ((V ^ nat e mod (P * Q)) ^ nat d mod (P * Q))" by (simp only: pw)
  also have "\<dots> = int V" using nat by (simp only: E_def D_def)
  finally show ?thesis by (simp only: iv)
qed

text \<open>
  C1. For every key pair that \<open>generate_rsa_keys\<close> returns, whatever the range asked for
  and the random draws, both keys carry the same modulus \<open>n\<close>, and for every symbol value
  \<open>v\<close> from 0 up to, excluding, \<open>n\<close>: \<open>encrypt_char\<close> with the public key gives a cipher
  symbol that \<open>decrypt_char\<close> with the private key takes back to \<open>v\<close>.
\<close>

theorem rsa_round_trip:
  assumes run: "generate_rsa_keys primeRange draws = Some (Inr (keys, rest))"
    and v: "0 \<le> v" "v < snd (public_key keys)"
  shows "snd (private_key keys) = snd (public_key keys) \<and>
    (\<exists>c. encrypt_char v (fst (public_key keys)) (snd (public_key keys)) = Inr c \<and>
         decrypt_char c (fst (private_key keys)) (snd (private_key keys)) = Inr v)"
proof -
  from generate_rsa_keys_Inr [OF run] obtain p q e d where
    pq: "isPrime p" "isPrime q" "p \<noteq> q"
    and sel: "select_e ((p - 1) * (q - 1)) = Some e"
    and inv: "mod_inverse e ((p - 1) * (q - 1)) = Some d"
    and keys: "keys = \<lparr>public_key = (e, p * q), private_key = (d, p * q)\<rparr>"
    by blast
  have p: "prime_number p" and q: "prime_number q"
    using pq by (simp_all add: isPrime_correct)
  have e2: "2 \<le> e" and elt: "e < (p - 1) * (q - 1)" and cop: "coprime e ((p - 1) * (q - 1))"
    using select_e_Some [OF sel] by simp_all
  from mod_inverse_correct [OF e2 elt cop] inv
  have d0: "0 \<le> d" and ed: "(p - 1) * (q - 1) dvd (d * e - 1)" by auto
  have e0: "0 \<le> e" using e2 by simp
  have "1 < p" "1 < q" using p q unfolding prime_number_def by simp_all
  then have n0: "p * q \<noteq> 0" by simp
  have vn: "v < p * q" using v(2) keys by simp
  have enc: "encrypt_char v e (p * q) = Inr (js_rem (v ^ nat e) (p * q))"
    using e0 n0 by (simp add: encrypt_char_def bigint_pow_def bigint_rem_def)
  have "decrypt_char (js_rem (v ^ nat e) (p * q)) d (p * q)
      = Inr (js_rem (js_rem (v ^ nat e) (p * q) ^ nat d) (p * q))"
    using d0 n0 by (simp add: decrypt_char_def bigint_pow_def bigint_rem_def)
  also have "\<dots> = Inr v"
    using rsa_int [OF p q pq(3) e0 d0 ed v(1) vn] by simp
  finally show ?thesis using enc by (simp add: keys)
qed

theorem rsa_round_trip_witness:
  "generate_rsa_keys 5000 [2, 3, 4, 3, 3, 11]
     = Some (Inr (\<lparr>public_key = (3, 33), private_key = (7, 33)\<rparr>, [])) \<and>
   encrypt_char 4 3 33 = Inr 31 \<and> decrypt_char 31 7 33 = Inr 4"
proof -
  have g: "generate_rsa_keys 5000 [2, 3, 4, 3, 3, 11]
     = Some (Inr (\<lparr>public_key = (3, 33), private_key = (7, 33)\<rparr>, []))"
    by code_simp
  have v: "(0::int) \<le> 4" "4 < snd (public_key \<lparr>public_key = (3, 33), private_key = (7, 33)\<rparr>)"
    by simp_all
  from rsa_round_trip [OF g v] obtain c where
    c: "encrypt_char 4 3 33 = Inr c" "decrypt_char c 7 33 = Inr 4" by auto
  have "encrypt_char 4 3 33 = Inr 31" by code_simp
  with c g show ?thesis by simp
qed

section \<open>The registry and the routing of records\<close>

lemma scan_by_name_find:
  "scan_by_name cl target requester =
     find (\<lambda>(id', entry). strict_eq (name entry) target \<and> id' \<noteq> requester) cl"
  by (induction cl target requester rule: scan_by_name.induct) simp_all

lemma Map_get_set: "Map_get (Map_set k v cl) k' = (if k' = k then Some v else Map_get cl k')"
  by (induction cl) auto

lemma Map_get_delete: "Map_get (Map_delete k cl) k' = (if k' = k then None else Map_get cl k')"
  by (induction cl) auto

lemma Map_get_None_iff: "Map_get cl k = None \<longleftrightarrow> k \<notin> set (map fst cl)"
  by (induction cl k rule: Map_get.induct) simp_all

lemma keys_Map_set:
  "map fst (Map_set k v cl) = (if k \<in> set (map fst cl) then map fst cl else map fst cl @ [k])"
  by (induction k v cl rule: Map_set.induct) simp_all

lemma keys_Map_delete: "map fst (Map_delete k cl) = removeAll k (map fst cl)"
  by (induction cl) auto

lemma distinct_Map_set: "distinct (map fst cl) \<Longrightarrow> distinct (map fst (Map_set k v cl))"
  by (simp add: keys_Map_set)

lemma distinct_Map_delete: "distinct (map fst cl) \<Longrightarrow> distinct (map fst (Map_delete k cl))"
  by (simp add: keys_Map_delete distinct_removeAll)

lemma Map_delete_absent: "Map_get cl k = None \<Longrightarrow> Map_delete k cl = cl"
  by (induction cl) (auto split: if_splits)

lemma length_Map_set_present: "Map_get cl k \<noteq> None \<Longrightarrow> length (Map_set k v cl) = length cl"
  by (induction cl) auto

text \<open>The conversion to a string returns for every value that is falsy, and for a string.\<close>

lemma printable_falsy: "\<not> truthy v \<Longrightarrow> printable v"
  by (cases v) simp_all

lemma printable_js_or: "printable a \<Longrightarrow> printable (js_or a (JStr s))"
  by (simp add: js_or_def)

lemma printable_js_or_iff: "printable (js_or a (JStr s)) = printable a"
  using printable_falsy [of a] by (auto simp add: js_or_def)

lemma printable_name_or_identifier:
  "printable (name_or_identifier info cid) =
     (case info of Some clientData \<Rightarrow> printable (name clientData) | None \<Rightarrow> True)"
  by (cases info) (simp_all add: name_or_identifier_def printable_js_or_iff)

text \<open>
  \<open>JSON.stringify\<close> and \<open>JSON.parse\<close> give back every value in which all numbers are
  finite and none is the negative zero.
\<close>

lemma wire_exact: "exact v \<Longrightarrow> wire v = v"
proof (induction v rule: wire.induct)
  case (5 xs)
  then show ?case by (simp add: list_all_iff map_idI)
next
  case (6 kvs)
  have "(case kv of (k, v) \<Rightarrow> (k, wire v)) = kv" if m: "kv \<in> set kvs" for kv
  proof -
    obtain k v where kv: "kv = (k, v)" by (cases kv)
    from "6.prems" m kv have e: "exact v" by (auto simp add: list_all_iff)
    have "wire v = v" by (rule "6.IH" [OF m kv [symmetric] e])
    then show ?thesis by (simp add: kv)
  qed
  then have "map (\<lambda>(k, v). (k, wire v)) kvs = kvs" by (rule map_idI)
  then show ?case by simp
qed simp_all

text \<open>The registry after a record, and after the events \<open>end\<close> and \<open>error\<close>.\<close>

lemma clients_switch_type:
  "clients (fst (switch_type st sk cid message)) =
     (if message ''type'' = JStr ''REGISTER''
      then Map_set cid \<lparr>socket = sk, name = js_or (message ''name'') (JStr ''''),
                        public_key' = message ''public_key''\<rparr> (clients st)
      else clients st)"
  by (simp add: switch_type_def on_REGISTER_def on_LIST_REQUEST_def on_START_CHAT_REQUEST_PK_def
      on_MESSAGE_def Let_def split: option.splits prod.splits)

lemma clients_on_record:
  "clients (fst (on_record st sk cid message)) = clients (fst (switch_type st sk cid message))"
  by (simp add: on_record_def split: option.splits prod.splits)

lemma on_end_clients:
  "clients (fst (on_end st sk cid)) = Map_delete (registered_key st sk cid) (clients st)"
  by (simp add: on_end_def Map_delete_absent Let_def split: option.splits)

lemma on_error_clients:
  "clients (fst (on_error st sk cid)) =
     (if printable (name_or_identifier (Map_get (clients st) (registered_key st sk cid))
                      (registered_key st sk cid))
      then Map_delete (registered_key st sk cid) (clients st)
      else clients st)"
  by (simp add: on_error_def name_or_identifier_def template_literal_def Map_delete_absent
      Let_def split: option.splits)

lemma distinct_on_frame:
  "distinct (map fst (clients st)) \<Longrightarrow>
     distinct (map fst (clients (fst (on_frame st sk cid fr))))"
  by (cases fr)
    (simp_all add: clients_on_record clients_switch_type distinct_Map_set del: distinct_map)

lemma distinct_on_end:
  "distinct (map fst (clients st)) \<Longrightarrow> distinct (map fst (clients (fst (on_end st sk cid))))"
  by (simp only: on_end_clients distinct_Map_delete)

lemma distinct_on_error:
  "distinct (map fst (clients st)) \<Longrightarrow> distinct (map fst (clients (fst (on_error st sk cid))))"
  by (simp only: on_error_clients distinct_Map_delete split: if_splits) simp

text \<open>
  The registry holds at most one entry for an identifier (its keys are distinct) in every
  state the broker reaches.
\<close>

lemma reachable_distinct: "reachable st \<Longrightarrow> distinct (map fst (clients st))"
proof (induction rule: reachable.induct)
  case (started w)
  show ?case by (simp add: initial_broker_def)
next
  case (line st sk clientIdentifier fr)
  from line.IH show ?case by (rule distinct_on_frame)
next
  case (ended st sk clientIdentifier)
  from ended.IH show ?case by (rule distinct_on_end)
next
  case (failed st sk clientIdentifier)
  from failed.IH show ?case by (rule distinct_on_error)
next
  case (transport st w)
  then show ?case by simp
qed

text \<open>
  After \<open>REGISTER\<close> the identifier of the connection maps to the new entry, which replaces
  any earlier one: the other identifiers keep theirs, and the registry does not grow when
  the identifier was present. This holds also when line 58 throws, which is after the
  entry is set.
\<close>

lemma register_replaces:
  assumes "message ''type'' = JStr ''REGISTER''"
  shows "Map_get (clients (fst (on_record st sk cid message))) cid =
           Some \<lparr>socket = sk, name = js_or (message ''name'') (JStr ''''),
                  public_key' = message ''public_key''\<rparr>"
    and "k \<noteq> cid \<Longrightarrow>
           Map_get (clients (fst (on_record st sk cid message))) k = Map_get (clients st) k"
    and "Map_get (clients st) cid \<noteq> None \<Longrightarrow>
           length (clients (fst (on_record st sk cid message))) = length (clients st)"
  using assms
  by (simp_all add: clients_on_record clients_switch_type Map_get_set length_Map_set_present)

text \<open>
  After \<open>end\<close> the identifier of the connection has no entry and the other identifiers
  keep theirs; when it had none already, the state is unchanged and nothing is thrown.
  The same holds after \<open>error\<close> when the name in the entry can be converted to a string.
\<close>

lemma end_removes:
  shows "Map_get (clients (fst (on_end st sk cid))) (registered_key st sk cid) = None"
    and "k \<noteq> registered_key st sk cid \<Longrightarrow>
           Map_get (clients (fst (on_end st sk cid))) k = Map_get (clients st) k"
    and "Map_get (clients st) (registered_key st sk cid) = None \<Longrightarrow>
           on_end st sk cid = (st, None)"
  by (simp_all add: on_end_clients Map_get_delete) (simp add: on_end_def)

lemma error_removes:
  assumes "\<And>clientData. Map_get (clients st) (registered_key st sk cid) = Some clientData \<Longrightarrow>
             printable (name clientData)"
  shows "Map_get (clients (fst (on_error st sk cid))) (registered_key st sk cid) = None"
    and "k \<noteq> registered_key st sk cid \<Longrightarrow>
           Map_get (clients (fst (on_error st sk cid))) k = Map_get (clients st) k"
    and "snd (on_error st sk cid) = None"
    and "Map_get (clients st) (registered_key st sk cid) = None \<Longrightarrow>
           on_error st sk cid = (st, None)"
proof -
  have p: "printable (name_or_identifier (Map_get (clients st) (registered_key st sk cid))
                        (registered_key st sk cid))"
    using assms by (simp add: printable_name_or_identifier split: option.splits)
  show "Map_get (clients (fst (on_error st sk cid))) (registered_key st sk cid) = None"
    by (simp add: on_error_clients p Map_get_delete)
  show "k \<noteq> registered_key st sk cid \<Longrightarrow>
           Map_get (clients (fst (on_error st sk cid))) k = Map_get (clients st) k"
    by (simp add: on_error_clients p Map_get_delete)
  show "snd (on_error st sk cid) = None"
    using p
    by (simp add: on_error_def name_or_identifier_def template_literal_def Let_def
        split: option.splits)
  show "Map_get (clients st) (registered_key st sk cid) = None \<Longrightarrow>
           on_error st sk cid = (st, None)"
    by (simp add: on_error_def template_literal_def Let_def)
qed

text \<open>
  C8. The claim has the entry of a connection removed by a transport error as by the end
  of the stream. The handler of \<open>end\<close> deletes the entry and then writes to the log; the
  handler of \<open>error\<close> writes to the log first, and its line converts the registered name
  to a string. A client registers the name \<open>{"toString": 1}\<close> on a fresh broker: the entry
  is stored, line 58 throws, and the \<open>catch\<close> branch answers. When that connection then
  fails, the handler of \<open>error\<close> throws at line 166, before the deletion of line 168, and
  the entry is still in the registry; had the stream ended instead, the entry would be
  gone.
\<close>

theorem error_handler_keeps_entry:
  "on_frame (initial_broker all_writable) 4 ''10.0.0.4:5004''
       (Object (register_record own_toString JNull))
     = (mallory_registered, [(4, ERROR_invalid_format)]) \<and>
   Map_get (clients mallory_registered) ''10.0.0.4:5004''
     = Some \<lparr>socket = 4, name = own_toString, public_key' = JNull\<rparr> \<and>
   on_error mallory_registered 4 ''10.0.0.4:5004'' = (mallory_registered, Some not_primitive) \<and>
   Map_get (clients (fst (on_error mallory_registered 4 ''10.0.0.4:5004''))) ''10.0.0.4:5004''
     = Some \<lparr>socket = 4, name = own_toString, public_key' = JNull\<rparr> \<and>
   Map_get (clients (fst (on_end mallory_registered 4 ''10.0.0.4:5004''))) ''10.0.0.4:5004''
     = None"
  by (simp add: mallory_registered_def on_record_def switch_type_def on_REGISTER_def
      register_record_def no_properties_def initial_broker_def all_writable_def sendJson_def
      template_literal_def js_or_def own_toString_def on_error_def on_end_def
      registered_key_def Let_def)

text \<open>
  C9. A \<open>MESSAGE\<close> record from a connection whose identifier has no entry in the registry
  is dropped: nothing is written to any socket, and the state of the broker, the registry
  included, is unchanged.
\<close>

theorem message_from_unregistered_dropped:
  assumes "message ''type'' = JStr ''MESSAGE''" and "Map_get (clients st) cid = None"
  shows "on_record st sk cid message = (st, [])"
  using assms by (simp add: on_record_def switch_type_def on_MESSAGE_def)

theorem message_from_unregistered_dropped_witness:
  "Map_get (clients three_clients) ''10.0.0.4:5004'' = None \<and>
   on_record three_clients 4 ''10.0.0.4:5004''
     (message_record (JStr ''10.0.0.1:5001'') (JArr [JStr ''31''])) = (three_clients, [])"
proof -
  have t: "message_record (JStr ''10.0.0.1:5001'') (JArr [JStr ''31'']) ''type'' = JStr ''MESSAGE''"
    by (simp add: message_record_def)
  have a: "Map_get (clients three_clients) ''10.0.0.4:5004'' = None"
    by (simp add: three_clients_def)
  from message_from_unregistered_dropped
    [where message = "message_record (JStr ''10.0.0.1:5001'') (JArr [JStr ''31''])"
       and st = three_clients and cid = "''10.0.0.4:5004''" and sk = 4, OF t a] a
  show ?thesis by simp
qed

text \<open>
  C4 says that the scan by display name runs whenever the lookup by identifier fails, and
  that every request is answered. The code runs the scan only for a requested value that
  is truthy: with a client registered without a name (its display name is the empty
  string), a request for the empty string is answered by the not-found notice, where the
  claim has the reply for that client. And the code writes the answer only to a writable
  socket: once the broker has ended every socket (as its shutdown does), a request for
  \<open>alice\<close> is answered by nothing, where the claim has the reply for her.
\<close>

theorem start_chat_counterexample:
  "on_record three_clients 2 ''10.0.0.2:5002'' (start_chat_request (JStr ''''))
     = (three_clients, [(2, TARGET_NOT_FOUND (JStr ''''))]) \<and>
   start_chat_reply (resolve_target_spec (clients three_clients) ''10.0.0.2:5002'' (JStr ''''))
       (JStr '''')
     = START_CHAT_INFO (JStr ''10.0.0.3:5003'') (JStr '''') (public_key' nameless) \<and>
   on_record after_shutdown 2 ''10.0.0.2:5002'' (start_chat_request (JStr ''alice''))
     = (after_shutdown, []) \<and>
   start_chat_reply
       (resolve_target_spec (clients after_shutdown) ''10.0.0.2:5002'' (JStr ''alice''))
       (JStr ''alice'')
     = START_CHAT_INFO (JStr ''10.0.0.1:5001'') (JStr ''alice'') (public_key' alice)"
  by (simp add: on_record_def switch_type_def on_START_CHAT_REQUEST_PK_def
      start_chat_request_def no_properties_def clients_get_def three_clients_def
      after_shutdown_def sendJson_def all_writable_def none_writable_def start_chat_reply_def
      resolve_target_spec_def name_or_identifier_def template_literal_def js_or_def
      nameless_def alice_def bob_def Let_def)

text \<open>
  C4, amended. Take a \<open>START_CHAT_REQUEST_PK\<close> record whose requested value, the name the
  requester registered (if it is registered) and the name of the target found (if one is
  found) can be converted to strings. The broker looks the target up by identifier first;
  only if that fails, and only if the requested value is truthy (so not the empty string,
  and not absent), it takes the first entry of the registry, in its order, whose display
  name is the requested value and whose identifier is not the requester's. It leaves the
  state as it is and, when the connection of the requester is writable, writes it one
  record: for a target found, the identifier, name and public key of that target;
  otherwise the not-found notice with the requested identifier. The values in the record
  are as \<open>JSON.stringify\<close> writes them. It writes nothing when that connection is not
  writable.
\<close>

theorem start_chat_resolution:
  assumes "message ''type'' = JStr ''START_CHAT_REQUEST_PK''"
    and "printable (message ''targetIdentifier'')"
    and "\<forall>requesterInfo.
           Map_get (clients st) cid = Some requesterInfo \<longrightarrow> printable (name requesterInfo)"
    and "\<forall>id' targetClientData.
           resolve_target_guarded (clients st) cid (message ''targetIdentifier'')
             = Some (id', targetClientData) \<longrightarrow>
           printable (name targetClientData)"
  shows "on_record st sk cid message =
     (st, if writable st sk
          then [(sk, stringified
                       (start_chat_reply
                          (resolve_target_guarded (clients st) cid (message ''targetIdentifier''))
                          (message ''targetIdentifier'')))]
          else [])"
proof -
  let ?target = "message ''targetIdentifier''"
  let ?requester = "name_or_identifier (Map_get (clients st) cid) cid"
  have requester: "printable ?requester"
    using assms(3) by (simp add: printable_name_or_identifier split: option.splits)
  have found: "on_START_CHAT_REQUEST_PK st sk cid message =
      (case resolve_target_guarded (clients st) cid ?target of
         Some (id', targetClientData) \<Rightarrow>
           (st, sendJson st sk (start_chat_reply (Some (id', targetClientData)) ?target),
            template_literal [js_or (name targetClientData) id', ?requester])
       | None \<Rightarrow>
           (st, sendJson st sk (start_chat_reply None ?target),
            template_literal [?target, ?requester]))"
    by (simp add: on_START_CHAT_REQUEST_PK_def resolve_target_guarded_def start_chat_reply_def
        scan_by_name_find Let_def split: option.splits prod.splits)
  show ?thesis
  proof (cases "resolve_target_guarded (clients st) cid ?target")
    case None
    with assms(1,2) requester found show ?thesis
      by (simp add: on_record_def switch_type_def template_literal_def sendJson_def)
  next
    case (Some resolved)
    obtain id' targetClientData where r: "resolved = (id', targetClientData)"
      by (cases resolved)
    from assms(4) Some r have n: "printable (name targetClientData)" by simp
    have "id' = ?target \<or> (\<exists>s. id' = JStr s)"
      using Some r
      by (auto simp add: resolve_target_guarded_def split: option.splits if_splits prod.splits)
    with assms(2) have i: "printable id'" by auto
    have "printable (js_or (name targetClientData) id')"
      using n i by (simp add: js_or_def)
    with assms(1) requester found Some r show ?thesis
      by (simp add: on_record_def switch_type_def template_literal_def sendJson_def)
  qed
qed

theorem start_chat_resolution_witness:
  "on_record three_clients 2 ''10.0.0.2:5002'' (start_chat_request (JStr ''alice''))
     = (three_clients,
        [(2, START_CHAT_INFO (JStr ''10.0.0.1:5001'') (JStr ''alice'') (public_key' alice))]) \<and>
   on_record three_clients 2 ''10.0.0.2:5002'' (start_chat_request (JStr ''10.0.0.3:5003''))
     = (three_clients,
        [(2, START_CHAT_INFO (JStr ''10.0.0.3:5003'') (JStr '''') (public_key' nameless))]) \<and>
   on_record three_clients 2 ''10.0.0.2:5002'' (start_chat_request (JStr ''bob''))
     = (three_clients, [(2, TARGET_NOT_FOUND (JStr ''bob''))])"
proof -
  have t: "start_chat_request target ''type'' = JStr ''START_CHAT_REQUEST_PK''" for target
    by (simp add: start_chat_request_def)
  have r: "start_chat_request target ''targetIdentifier'' = target" for target
    by (simp add: start_chat_request_def)
  have p: "printable (start_chat_request (JStr s) ''targetIdentifier'')" for s
    by (simp add: r)
  have q: "\<forall>requesterInfo. Map_get (clients three_clients) ''10.0.0.2:5002'' = Some requesterInfo
      \<longrightarrow> printable (name requesterInfo)"
    by (simp add: three_clients_def bob_def)
  have w: "writable three_clients 2" by (simp add: three_clients_def all_writable_def)
  have a: "resolve_target_guarded (clients three_clients) ''10.0.0.2:5002'' (JStr ''alice'')
      = Some (JStr ''10.0.0.1:5001'', alice)"
    by (simp add: resolve_target_guarded_def clients_get_def three_clients_def alice_def bob_def
        nameless_def)
  have b: "resolve_target_guarded (clients three_clients) ''10.0.0.2:5002'' (JStr ''10.0.0.3:5003'')
      = Some (JStr ''10.0.0.3:5003'', nameless)"
    by (simp add: resolve_target_guarded_def clients_get_def three_clients_def)
  have c: "resolve_target_guarded (clients three_clients) ''10.0.0.2:5002'' (JStr ''bob'') = None"
    by (simp add: resolve_target_guarded_def clients_get_def three_clients_def alice_def bob_def
        nameless_def)
  have na: "printable (name alice)" and nn: "printable (name nameless)"
    by (simp_all add: alice_def nameless_def)
  note by_name = start_chat_resolution
    [where message = "start_chat_request (JStr ''alice'')" and st = three_clients and sk = 2
       and cid = "''10.0.0.2:5002''", OF t p q]
  note by_identifier = start_chat_resolution
    [where message = "start_chat_request (JStr ''10.0.0.3:5003'')" and st = three_clients
       and sk = 2 and cid = "''10.0.0.2:5002''", OF t p q]
  note own_name = start_chat_resolution
    [where message = "start_chat_request (JStr ''bob'')" and st = three_clients and sk = 2
       and cid = "''10.0.0.2:5002''", OF t p q]
  show ?thesis
    using by_name by_identifier own_name
    by (simp add: r w a b c na nn start_chat_reply_def alice_def nameless_def)
qed

text \<open>
  C5 says that a record that cannot be forwarded always brings the sender a
  delivery-failure notice, and that a forwarded payload is unchanged. The code sends the
  notice under the guard \<open>senderClient.socket.writable\<close>: once the broker has ended every
  socket (as its shutdown does), a \<open>MESSAGE\<close> from a registered sender to an identifier
  that is not in the registry is answered by nothing. And the code forwards the payload
  through \<open>JSON.stringify\<close>: the payload \<open>1e400\<close>, parsed as the infinity, reaches the
  receiver as \<open>null\<close>.
\<close>

theorem message_no_notice_counterexample:
  "Map_get (clients after_shutdown) ''10.0.0.2:5002'' = Some bob \<and>
   clients_get (clients after_shutdown) (JStr ''10.0.0.9:5009'') = None \<and>
   on_record after_shutdown 2 ''10.0.0.2:5002''
       (message_record (JStr ''10.0.0.9:5009'') (JArr [JStr ''31'']))
     = (after_shutdown, []) \<and>
   on_record three_clients 2 ''10.0.0.2:5002''
       (message_record (JStr ''10.0.0.1:5001'') (JNum PositiveInfinity))
     = (three_clients, [(1, INCOMING_MESSAGE ''10.0.0.2:5002'' (JStr ''bob'') JNull)])"
  by (simp add: on_record_def switch_type_def on_MESSAGE_def message_record_def
      no_properties_def clients_get_def after_shutdown_def three_clients_def none_writable_def
      all_writable_def sendJson_def template_literal_def js_or_def alice_def bob_def Let_def)

text \<open>
  C5, amended. Take a \<open>MESSAGE\<close> record from a registered sender in which the values
  that the lines of the log convert to strings can be converted: the name the sender
  registered, the receiver, the name the receiver registered (if it is in the registry),
  and of the payload its first three elements if it is an array, the whole of it if not.
  The state is left as it is. If the receiver is in the registry and its connection is
  writable, exactly one record is written, to the receiver, with the identifier of the
  sender, the display name the sender registered, and the payload, as \<open>JSON.stringify\<close>
  writes them: the payload is unchanged unless a number in it is an infinity or the
  negative zero. Otherwise nothing is forwarded, and the sender is sent a delivery-failure
  notice naming the intended receiver if the connection the sender registered is
  writable; if it is not, nothing is written at all.
\<close>

theorem message_delivery:
  assumes "message ''type'' = JStr ''MESSAGE''"
    and "Map_get (clients st) cid = Some senderClient"
    and "printable (name senderClient)"
    and "list_all printable (preview_values (message ''encryptedMessage''))"
    and "printable (message ''receiver'')"
    and "\<forall>receiverClient.
           clients_get (clients st) (message ''receiver'') = Some receiverClient \<longrightarrow>
           printable (name receiverClient)"
  shows "fst (on_record st sk cid message) = st \<and>
    (\<forall>receiverClient.
       clients_get (clients st) (message ''receiver'') = Some receiverClient \<and>
       writable st (socket receiverClient) \<longrightarrow>
       snd (on_record st sk cid message) =
         [(socket receiverClient,
           INCOMING_MESSAGE cid (wire (name senderClient))
             (wire (message ''encryptedMessage'')))]) \<and>
    (\<not> (\<exists>receiverClient.
          clients_get (clients st) (message ''receiver'') = Some receiverClient \<and>
          writable st (socket receiverClient)) \<longrightarrow>
       snd (on_record st sk cid message) =
         (if writable st (socket senderClient)
          then [(socket senderClient, DELIVERY_ERROR (wire (message ''receiver'')))]
          else [])) \<and>
    (exact (message ''encryptedMessage'') \<longrightarrow>
       wire (message ''encryptedMessage'') = message ''encryptedMessage'')"
proof -
  let ?receiver = "message ''receiver''"
  have s: "printable (js_or (name senderClient) (JStr cid))"
    using assms(3) by (rule printable_js_or)
  have r: "printable (case clients_get (clients st) ?receiver of
                        Some receiverEntry \<Rightarrow> js_or (name receiverEntry) ?receiver
                      | None \<Rightarrow> ?receiver)"
    using assms(5,6) by (simp add: js_or_def split: option.splits)
  have logged: "template_literal
      ([js_or (name senderClient) (JStr cid)] @ preview_values (message ''encryptedMessage'') @
       [case clients_get (clients st) ?receiver of
          Some receiverEntry \<Rightarrow> js_or (name receiverEntry) ?receiver
        | None \<Rightarrow> ?receiver]) = None"
    using s r assms(4) by (simp add: template_literal_def)
  have last: "template_literal [?receiver] = None"
    using assms(5) by (simp add: template_literal_def)
  have run: "on_record st sk cid message =
      (st, case clients_get (clients st) ?receiver of
             None \<Rightarrow>
               if writable st (socket senderClient)
               then [(socket senderClient, DELIVERY_ERROR (wire ?receiver))] else []
           | Some receiverEntry \<Rightarrow>
               if writable st (socket receiverEntry)
               then [(socket receiverEntry,
                      INCOMING_MESSAGE cid (wire (name senderClient))
                        (wire (message ''encryptedMessage'')))]
               else if writable st (socket senderClient)
               then [(socket senderClient, DELIVERY_ERROR (wire ?receiver))] else [])"
    using assms(1,2) logged last
    by (simp add: on_record_def switch_type_def on_MESSAGE_def sendJson_def Let_def
        split: option.splits)
  show ?thesis
    by (auto simp add: run wire_exact split: option.splits)
qed

theorem message_delivery_witness:
  "snd (on_record three_clients 2 ''10.0.0.2:5002''
          (message_record (JStr ''10.0.0.1:5001'') (JArr [JStr ''31''])))
     = [(1, INCOMING_MESSAGE ''10.0.0.2:5002'' (JStr ''bob'') (JArr [JStr ''31'']))] \<and>
   snd (on_record three_clients 2 ''10.0.0.2:5002''
          (message_record (JStr ''10.0.0.9:5009'') (JArr [JStr ''31''])))
     = [(2, DELIVERY_ERROR (JStr ''10.0.0.9:5009''))]"
proof -
  have t: "message_record receiver payload ''type'' = JStr ''MESSAGE''" for receiver payload
    by (simp add: message_record_def)
  have r: "message_record receiver payload ''receiver'' = receiver" for receiver payload
    by (simp add: message_record_def)
  have p: "message_record receiver payload ''encryptedMessage'' = payload" for receiver payload
    by (simp add: message_record_def)
  have s: "Map_get (clients three_clients) ''10.0.0.2:5002'' = Some bob"
    by (simp add: three_clients_def)
  have nb: "printable (name bob)" by (simp add: bob_def)
  have pv: "list_all printable
      (preview_values (message_record receiver (JArr [JStr ''31'']) ''encryptedMessage''))"
    for receiver
    by (simp add: p)
  have pr: "printable (message_record (JStr k) payload ''receiver'')" for k payload
    by (simp add: r)
  have a: "clients_get (clients three_clients) (JStr ''10.0.0.1:5001'') = Some alice"
    by (simp add: three_clients_def clients_get_def)
  have n: "clients_get (clients three_clients) (JStr ''10.0.0.9:5009'') = None"
    by (simp add: three_clients_def clients_get_def)
  have na: "\<forall>receiverClient.
      clients_get (clients three_clients)
        (message_record (JStr ''10.0.0.1:5001'') (JArr [JStr ''31'']) ''receiver'')
        = Some receiverClient \<longrightarrow> printable (name receiverClient)"
    by (simp add: r a alice_def)
  have nn: "\<forall>receiverClient.
      clients_get (clients three_clients)
        (message_record (JStr ''10.0.0.9:5009'') (JArr [JStr ''31'']) ''receiver'')
        = Some receiverClient \<longrightarrow> printable (name receiverClient)"
    by (simp add: r n)
  have w: "writable three_clients sk" for sk
    by (simp add: three_clients_def all_writable_def)
  note forwarded = message_delivery
    [where message = "message_record (JStr ''10.0.0.1:5001'') (JArr [JStr ''31''])"
       and st = three_clients and sk = 2 and cid = "''10.0.0.2:5002''", OF t s nb pv pr na]
  note refused = message_delivery
    [where message = "message_record (JStr ''10.0.0.9:5009'') (JArr [JStr ''31''])"
       and st = three_clients and sk = 2 and cid = "''10.0.0.2:5002''", OF t s nb pv pr nn]
  have "snd (on_record three_clients 2 ''10.0.0.2:5002''
          (message_record (JStr ''10.0.0.1:5001'') (JArr [JStr ''31''])))
     = [(socket alice, INCOMING_MESSAGE ''10.0.0.2:5002'' (wire (name bob))
           (wire (JArr [JStr ''31''])))]"
    using forwarded a w by (simp add: r p)
  moreover have "snd (on_record three_clients 2 ''10.0.0.2:5002''
          (message_record (JStr ''10.0.0.9:5009'') (JArr [JStr ''31''])))
     = [(socket bob, DELIVERY_ERROR (wire (JStr ''10.0.0.9:5009'')))]"
    using refused n w by (simp add: r p)
  ultimately show ?thesis by (simp add: alice_def bob_def)
qed

end
